theory Spec2Isabelle
  imports Complex_Main "HOL-Library.Log_Nat"
begin

section \<open>JavaScript numbers and array cells\<close>

text \<open>
  The embedding follows \<^verbatim>\<open>waffleChart.ts\<close>. A JavaScript number is an IEEE 754 double:
  a finite value, the negative zero, one of the two infinities, or NaN. \<open>Finite x\<close> is the
  double of the real value \<open>x\<close>, and \<open>Finite 0\<close> is the positive zero.
\<close>

datatype jsnum = Finite real | NegZero | PosInfinity | NegInfinity | NaN

fun is_finite :: "jsnum \<Rightarrow> bool" where
  "is_finite (Finite x) = True"
| "is_finite NegZero = True"
| "is_finite _ = False"

text \<open>The sign bit, the value of a finite number, and the two signed results.\<close>

fun negative :: "jsnum \<Rightarrow> bool" where
  "negative (Finite x) = (x < 0)"
| "negative NegZero = True"
| "negative NegInfinity = True"
| "negative _ = False"

fun number :: "jsnum \<Rightarrow> real" where
  "number (Finite x) = x"
| "number _ = 0"

text \<open>The numbers that are neither negative nor NaN, for the proofs.\<close>

fun nonneg :: "jsnum \<Rightarrow> bool" where
  "nonneg (Finite x) = (0 \<le> x)"
| "nonneg PosInfinity = True"
| "nonneg _ = False"

text \<open>The numbers of value \<open>2 powi k\<close> or more, the positive infinity among them.\<close>

fun atLeastPow :: "int \<Rightarrow> jsnum \<Rightarrow> bool" where
  "atLeastPow k (Finite x) = (2 powi k \<le> x)"
| "atLeastPow k PosInfinity = True"
| "atLeastPow k _ = False"

definition is_zero :: "jsnum \<Rightarrow> bool" where
  "is_zero a = (a = Finite 0 \<or> a = NegZero)"

definition is_infinite :: "jsnum \<Rightarrow> bool" where
  "is_infinite a = (a = PosInfinity \<or> a = NegInfinity)"

definition zero :: "bool \<Rightarrow> jsnum" where
  "zero neg = (if neg then NegZero else Finite 0)"

definition infinity :: "bool \<Rightarrow> jsnum" where
  "infinity neg = (if neg then NegInfinity else PosInfinity)"

text \<open>
  Rounding to the nearest double, ties to the even significand. \<open>binade x\<close> is the exponent
  \<open>k\<close> with \<open>2 powi k \<le> \<bar>x\<bar> < 2 powi (k + 1)\<close>; the doubles near \<open>x\<close> are the multiples
  of \<open>2 powi exponent x\<close> (53 bits of significand, and \<open>-1074\<close> the exponent of the
  subnormal numbers). A rounded value of magnitude \<open>2 powi 1024\<close> or more overflows to an
  infinity; a value rounded to 0 keeps the sign of the exact value.
\<close>

definition binade :: "real \<Rightarrow> int" where
  "binade x =
     (if 1 \<le> \<bar>x\<bar> then bitlen \<lfloor>\<bar>x\<bar>\<rfloor> - 1 else - bitlen (\<lceil>1 / \<bar>x\<bar>\<rceil> - 1))"

definition roundHalfEven :: "real \<Rightarrow> int" where
  "roundHalfEven y =
     (let f = \<lfloor>y\<rfloor> in
      if y - of_int f < 1 / 2 then f
      else if 1 / 2 < y - of_int f then f + 1
      else if even f then f else f + 1)"

definition exponent :: "real \<Rightarrow> int" where
  "exponent x = max (binade x - 52) (- 1074)"

definition rounded :: "real \<Rightarrow> real" where
  "rounded x = of_int (roundHalfEven (x / 2 powi exponent x)) * 2 powi exponent x"

definition fl :: "real \<Rightarrow> jsnum" where
  "fl x =
     (if 2 powi 1024 \<le> \<bar>rounded x\<bar> then infinity (x < 0)
      else if rounded x = 0 then zero (x < 0)
      else Finite (rounded x))"

text \<open>
  The arithmetic operators. An exact result 0 gets its sign from the operands: a sum is the
  negative zero only when both operands carry the sign, a product or quotient when exactly
  one of them does.
\<close>

fun js_neg :: "jsnum \<Rightarrow> jsnum" where
  "js_neg (Finite x) = (if x = 0 then NegZero else Finite (- x))"
| "js_neg NegZero = Finite 0"
| "js_neg PosInfinity = NegInfinity"
| "js_neg NegInfinity = PosInfinity"
| "js_neg NaN = NaN"

definition js_add :: "jsnum \<Rightarrow> jsnum \<Rightarrow> jsnum" where
  "js_add a b =
     (if a = NaN \<or> b = NaN then NaN
      else if is_infinite a then (if is_infinite b \<and> a \<noteq> b then NaN else a)
      else if is_infinite b then b
      else if number a + number b = 0 then zero (negative a \<and> negative b)
      else fl (number a + number b))"

definition js_sub :: "jsnum \<Rightarrow> jsnum \<Rightarrow> jsnum" where
  "js_sub a b = js_add a (js_neg b)"

definition js_mul :: "jsnum \<Rightarrow> jsnum \<Rightarrow> jsnum" where
  "js_mul a b =
     (if a = NaN \<or> b = NaN then NaN
      else if is_infinite a \<or> is_infinite b
        then (if is_zero a \<or> is_zero b then NaN else infinity (negative a \<noteq> negative b))
      else if number a * number b = 0 then zero (negative a \<noteq> negative b)
      else fl (number a * number b))"

definition js_div :: "jsnum \<Rightarrow> jsnum \<Rightarrow> jsnum" where
  "js_div a b =
     (if a = NaN \<or> b = NaN then NaN
      else if is_infinite a
        then (if is_infinite b then NaN else infinity (negative a \<noteq> negative b))
      else if is_infinite b then zero (negative a \<noteq> negative b)
      else if is_zero b
        then (if is_zero a then NaN else infinity (negative a \<noteq> negative b))
      else if is_zero a then zero (negative a \<noteq> negative b)
      else fl (number a / number b))"

text \<open>
  \<^verbatim>\<open>a > b\<close> and \<^verbatim>\<open>a <= b\<close>: false as soon as one side is NaN; the two zeros are equal.
\<close>

fun js_gt :: "jsnum \<Rightarrow> jsnum \<Rightarrow> bool" where
  "js_gt NaN _ = False"
| "js_gt _ NaN = False"
| "js_gt PosInfinity PosInfinity = False"
| "js_gt PosInfinity _ = True"
| "js_gt _ PosInfinity = False"
| "js_gt NegInfinity _ = False"
| "js_gt _ NegInfinity = True"
| "js_gt a b = (number b < number a)"

definition js_le :: "jsnum \<Rightarrow> jsnum \<Rightarrow> bool" where
  "js_le a b = (a \<noteq> NaN \<and> b \<noteq> NaN \<and> \<not> js_gt a b)"

text \<open>
  \<^verbatim>\<open>Math.round\<close> gives the nearest integer, a half towards \<open>+\<infinity>\<close>; it is exact, and a
  result 0 keeps the sign of the argument.
\<close>

fun Math_round :: "jsnum \<Rightarrow> jsnum" where
  "Math_round (Finite x) =
     (if \<lfloor>x + 1 / 2\<rfloor> = 0 then zero (x < 0) else Finite (of_int \<lfloor>x + 1 / 2\<rfloor>))"
| "Math_round n = n"

text \<open>
  An array cell: a value, \<^verbatim>\<open>null\<close>, or \<^verbatim>\<open>undefined\<close> (also what a hole and a read
  past the end give). \<open>ToNumber\<close> and \<open>ToBoolean\<close> are the conversions of the language on
  number cells.
\<close>

datatype 'a js = Undefined | Null | Val 'a

fun ToNumber :: "jsnum js \<Rightarrow> jsnum" where
  "ToNumber Undefined = NaN"
| "ToNumber Null = Finite 0"
| "ToNumber (Val n) = n"

fun ToBoolean :: "jsnum js \<Rightarrow> bool" where
  "ToBoolean Undefined = False"
| "ToBoolean Null = False"
| "ToBoolean (Val (Finite x)) = (x \<noteq> 0)"
| "ToBoolean (Val NegZero) = False"
| "ToBoolean (Val NaN) = False"
| "ToBoolean (Val PosInfinity) = True"
| "ToBoolean (Val NegInfinity) = True"

text \<open>Reading past the end gives \<^verbatim>\<open>undefined\<close>; writing past the end extends the array.\<close>

definition js_get :: "'a js list \<Rightarrow> nat \<Rightarrow> 'a js" where
  "js_get xs i = (if i < length xs then xs ! i else Undefined)"

definition js_set :: "'a js list \<Rightarrow> nat \<Rightarrow> 'a js \<Rightarrow> 'a js list" where
  "js_set xs i v =
     (if i < length xs then xs[i := v]
      else xs @ replicate (i - length xs) Undefined @ [v])"

text \<open>
  \<^verbatim>\<open>Math.max.apply(null, xs)\<close>: \<open>-Infinity\<close> for no argument, NaN as soon as one
  argument is NaN; the positive zero counts as larger than the negative zero.
\<close>

definition js_max :: "jsnum \<Rightarrow> jsnum \<Rightarrow> jsnum" where
  "js_max a b =
     (if a = NaN \<or> b = NaN then NaN
      else if js_gt b a then b
      else if js_gt a b then a
      else if a = NegZero then b else a)"

definition Math_max :: "jsnum js list \<Rightarrow> jsnum" where
  "Math_max xs = foldl js_max NegInfinity (map ToNumber xs)"

section \<open>The layout search\<close>

text \<open>
  The sizes of a viewport are numbers. The loop counters and the item count are the integers
  \<open>1, 2, \<dots>\<close> (an item count is the length of an array), which are doubles without
  rounding; the model takes them as natural numbers and \<open>ofCount\<close> gives their double.
\<close>

record IViewport =
  width :: jsnum
  height :: jsnum

record WaffleChartLayout =
  rows :: nat
  columns :: nat
  totalArea :: jsnum

definition ofCount :: "nat \<Rightarrow> jsnum" where
  "ofCount n = Finite (real n)"

text \<open>\<^verbatim>\<open>getWaffleSize\<close>: the largest 600:800 tile inside the given cell.\<close>

definition getWaffleSize :: "IViewport \<Rightarrow> IViewport" where
  "getWaffleSize viewport =
     (if js_le (js_div (js_mul (width viewport) (Finite 800)) (Finite 600)) (height viewport)
      then \<lparr>width = width viewport,
            height = js_div (js_mul (width viewport) (Finite 800)) (Finite 600)\<rparr>
      else \<lparr>width = js_div (js_mul (height viewport) (Finite 600)) (Finite 800),
            height = height viewport\<rparr>)"

text \<open>\<^verbatim>\<open>calculateArea\<close>: the area covered by \<open>count\<close> tiles in a grid of the given shape.\<close>

definition calculateArea :: "IViewport \<Rightarrow> nat \<Rightarrow> nat \<Rightarrow> nat \<Rightarrow> WaffleChartLayout" where
  "calculateArea viewport cnt rws cols =
     (let waffleViewport = getWaffleSize
            \<lparr>width = js_div (width viewport) (ofCount cols),
             height = js_div (height viewport) (ofCount rws)\<rparr>;
          area = js_mul (js_mul (width waffleViewport) (height waffleViewport)) (ofCount cnt)
      in \<lparr>rows = rws, columns = cols, totalArea = area\<rparr>)"

text \<open>
  \<^verbatim>\<open>getBestLayout\<close>: the two nested \<^verbatim>\<open>for\<close> loops run \<open>i\<close> and \<open>j\<close> from 1 to
  \<open>count\<close>; \<open>layoutStep\<close> is the body of the inner loop.
\<close>

definition initialLayout :: WaffleChartLayout where
  "initialLayout = \<lparr>rows = 0, columns = 0, totalArea = Finite 0\<rparr>"

definition layoutStep :: "IViewport \<Rightarrow> nat \<Rightarrow> nat \<Rightarrow> nat \<Rightarrow> WaffleChartLayout \<Rightarrow> WaffleChartLayout" where
  "layoutStep viewport cnt i j bestLayout =
     (if i * j \<ge> cnt
      then (let currentArea = calculateArea viewport cnt i j
            in if js_gt (totalArea currentArea) (totalArea bestLayout)
               then currentArea else bestLayout)
      else bestLayout)"

definition getBestLayout :: "IViewport \<Rightarrow> nat \<Rightarrow> WaffleChartLayout" where
  "getBestLayout viewport cnt =
     fold (\<lambda>i. fold (layoutStep viewport cnt i) [1..<Suc cnt]) [1..<Suc cnt] initialLayout"

text \<open>The invariant of the search: the sentinel, or a grid with enough cells.\<close>

definition admissible :: "nat \<Rightarrow> WaffleChartLayout \<Rightarrow> bool" where
  "admissible cnt l = (l = initialLayout \<or> rows l * columns l \<ge> cnt)"

section \<open>The converter\<close>

text \<open>
  \<^verbatim>\<open>sanitizePathD\<close> tests the label against \<^verbatim>\<open>/[bdfgijknopruwxy]+/gi\<close>. The regular
  expression is created by the call, so the search starts at index 0; it succeeds when some
  position starts a non-empty run of characters of the class. Without the \<^verbatim>\<open>u\<close> flag,
  ignoring case compares the upper-case forms, and a character outside ASCII never
  canonicalises to an ASCII letter.
\<close>

definition toUpperCase :: "char \<Rightarrow> char" where
  "toUpperCase c =
     (case map_of (zip ''abcdefghijklmnopqrstuvwxyz'' ''ABCDEFGHIJKLMNOPQRSTUVWXYZ'') c of
        Some u \<Rightarrow> u
      | None \<Rightarrow> c)"

definition invalidPathChars :: string where
  "invalidPathChars = ''bdfgijknopruwxy''"

definition inCharClass :: "char \<Rightarrow> bool" where
  "inCharClass c = (toUpperCase c \<in> set (map toUpperCase invalidPathChars))"

fun regex_test :: "string \<Rightarrow> bool" where
  "regex_test [] = False"
| "regex_test (c # cs) = (inCharClass c \<or> regex_test cs)"

definition sanitizePathD :: "string \<Rightarrow> string js" where
  "sanitizePathD pathD = (if regex_test pathD then Null else Val pathD)"

text \<open>The data view, as far as the converter reads it.\<close>

record DataViewValueColumn =
  roles :: "string list"
  colValues :: "jsnum js list"

record ('i, 'o) DataViewCategoryColumn =
  catValues :: "string list"
  identity :: "'i list"
  catObjects :: "'o list option"
  dateTime :: bool

record DataViewValueColumns =
  columnList :: "DataViewValueColumn list"
  groupNames :: "string list"

record ('i, 'o) DataView =
  categories :: "('i, 'o) DataViewCategoryColumn list option"
  valueColumns :: "DataViewValueColumns option"
  metadataColumns :: bool

text \<open>
  Modelled from the spec: \<^verbatim>\<open>DataRoleHelper.hasRole\<close> is not part of the sources at hand;
  it resolves a role by name among the roles the column's source carries.
\<close>

definition hasRole :: "DataViewValueColumn \<Rightarrow> string \<Rightarrow> bool" where
  "hasRole col roleName = (roleName \<in> set (roles col))"

text \<open>
  \<^verbatim>\<open>sumValues\<close> adds the truthy entries of a series to the totals and records the
  current path at their indices.
\<close>

definition sumValuesStep ::
  "jsnum js list \<Rightarrow> string js \<Rightarrow> nat \<Rightarrow> jsnum js list \<times> string js list
     \<Rightarrow> jsnum js list \<times> string js list" where
  "sumValuesStep localValues currentPath i tp =
     (if ToBoolean (js_get localValues i)
      then (js_set (fst tp) i
              (Val (js_add (ToNumber (js_get (fst tp) i)) (ToNumber (js_get localValues i)))),
            js_set (snd tp) i currentPath)
      else tp)"

definition sumValues ::
  "jsnum js list \<Rightarrow> jsnum js list \<Rightarrow> string js list \<Rightarrow> string js
     \<Rightarrow> jsnum js list \<times> string js list" where
  "sumValues totals localValues paths currentPath =
     fold (sumValuesStep localValues currentPath) [0..<length localValues] (totals, paths)"

text \<open>
  The loop over the value columns. \<open>totals\<close> and \<open>paths\<close> are allocated together by the
  first column of the Values role, so the state keeps them as one optional pair.
\<close>

record ValuesState =
  totalsPaths :: "(jsnum js list \<times> string js list) option"
  minValues :: "jsnum js list option"
  maxValues :: "jsnum js list option"
  currentPathIndex :: nat

definition initialValuesState :: ValuesState where
  "initialValuesState =
     \<lparr>totalsPaths = None, minValues = None, maxValues = None, currentPathIndex = 0\<rparr>"

definition columnStep :: "string js list \<Rightarrow> DataViewValueColumn \<Rightarrow> ValuesState \<Rightarrow> ValuesState" where
  "columnStep pathsGroups col st =
     (let localValues = colValues col in
      if hasRole col ''Values'' then
        (let tp = (case totalsPaths st of
                     None \<Rightarrow> (replicate (length localValues) (Val (Finite 0)),
                              replicate (length localValues) Undefined)
                   | Some tp \<Rightarrow> tp)
         in st\<lparr>totalsPaths := Some (sumValues (fst tp) localValues (snd tp)
                                (js_get pathsGroups (currentPathIndex st))),
               currentPathIndex := currentPathIndex st + 1\<rparr>)
      else if hasRole col ''MinValue'' then st\<lparr>minValues := Some localValues\<rparr>
      else if hasRole col ''MaxValue'' then st\<lparr>maxValues := Some localValues\<rparr>
      else st)"

definition readValues :: "('i, 'o) DataView \<Rightarrow> ValuesState" where
  "readValues dataView =
     (case valueColumns dataView of
        Some categoricalValues \<Rightarrow>
          if metadataColumns dataView
          then (let pathsGroups = map sanitizePathD (groupNames categoricalValues)
                in fold (columnStep pathsGroups) (columnList categoricalValues)
                     initialValuesState)
          else initialValuesState
      | None \<Rightarrow> initialValuesState)"

text \<open>The invariant of that loop: the totals and the paths are equally long.\<close>

definition aligned :: "ValuesState \<Rightarrow> bool" where
  "aligned st =
     (case totalsPaths st of Some tp \<Rightarrow> length (fst tp) = length (snd tp) | None \<Rightarrow> True)"

text \<open>The count of items: the longer of the labels and the totals, where they exist.\<close>

definition countOf :: "string list option \<Rightarrow> jsnum js list option \<Rightarrow> nat option" where
  "countOf labelsArray totals =
     (case (labelsArray, totals) of
        (Some ls, Some ts) \<Rightarrow> Some (max (length ls) (length ts))
      | (Some ls, None) \<Rightarrow> Some (length ls)
      | (None, Some ts) \<Rightarrow> Some (length ts)
      | (None, None) \<Rightarrow> None)"

text \<open>
  Without totals so far, an array of \<open>count\<close> zeros; the loop \<^verbatim>\<open>i < count\<close> does not
  run when \<open>count\<close> is \<^verbatim>\<open>undefined\<close>.
\<close>

definition totalsOrZeros :: "nat option \<Rightarrow> jsnum js list option \<Rightarrow> jsnum js list" where
  "totalsOrZeros cnt totals =
     (case totals of
        Some ts \<Rightarrow> ts
      | None \<Rightarrow> replicate (case cnt of Some n \<Rightarrow> n | None \<Rightarrow> 0) (Val (Finite 0)))"

text \<open>
  The normalisation of the totals. Each pass of either loop reads and writes the entry at
  its own index only, so the loops are maps over the array.
\<close>

definition localMinValue :: "jsnum js list option \<Rightarrow> nat \<Rightarrow> jsnum" where
  "localMinValue minVs i =
     (case minVs of
        Some ms \<Rightarrow> if ToBoolean (js_get ms i) then ToNumber (js_get ms i) else Finite 0
      | None \<Rightarrow> Finite 0)"

definition normalizeValues ::
  "jsnum js list option \<Rightarrow> jsnum js list option \<Rightarrow> jsnum js list \<Rightarrow> jsnum js list" where
  "normalizeValues minVs maxVs totals =
     (let maxValue = Math_max totals in
      case maxVs of
        Some ms \<Rightarrow>
          map (\<lambda>i. let localMaxValue = ToNumber (js_get ms i);
                       rng = js_sub localMaxValue (localMinValue minVs i)
                   in Val (Math_round
                        (js_div (js_mul (js_sub (ToNumber (totals ! i)) (localMinValue minVs i))
                                   (Finite 100)) rng)))
            [0..<length totals]
      | None \<Rightarrow>
          if js_gt maxValue (Finite 100)
          then map (\<lambda>t. Val (Math_round (js_div (js_mul (ToNumber t) (Finite 100)) maxValue)))
                 totals
          else totals)"

text \<open>The view model. The field \<^verbatim>\<open>values\<close> of the view model is \<open>vmValues\<close> here.\<close>

record ('i, 'o) WaffleChartViewModel =
  count :: "nat option"
  labelsArray :: "string list option"
  identities :: "'i list option"
  objects :: "'o list option"
  vmValues :: "jsnum js list"
  paths :: "string js list option"

text \<open>
  \<^verbatim>\<open>converter\<close>, in the order of its text: the labels of the first category column,
  the loop over the value columns (\<open>readValues\<close> above), the count, the totals as they
  stand when the normalisation starts, and the view model. The formatter of date labels is a
  collaborator outside the sources at hand and is a parameter. The record \<open>DataView\<close> is a
  data view whose member \<^verbatim>\<open>categorical\<close> is there, with the identities of its categories;
  \<open>converterCall\<close> below adds the data views without them.
\<close>

definition category0 :: "('i, 'o) DataView \<Rightarrow> ('i, 'o) DataViewCategoryColumn option" where
  "category0 dataView = (case categories dataView of Some (c # cs) \<Rightarrow> Some c | _ \<Rightarrow> None)"

definition categoryLabels :: "(string \<Rightarrow> string) \<Rightarrow> ('i, 'o) DataView \<Rightarrow> string list option" where
  "categoryLabels formatLabel dataView =
     map_option (\<lambda>c. if dateTime c then map formatLabel (catValues c) else catValues c)
       (category0 dataView)"

definition seriesTotals :: "('i, 'o) DataView \<Rightarrow> jsnum js list option" where
  "seriesTotals dataView = map_option fst (totalsPaths (readValues dataView))"

definition itemCount :: "(string \<Rightarrow> string) \<Rightarrow> ('i, 'o) DataView \<Rightarrow> nat option" where
  "itemCount formatLabel dataView =
     countOf (categoryLabels formatLabel dataView) (seriesTotals dataView)"

definition summedTotals :: "(string \<Rightarrow> string) \<Rightarrow> ('i, 'o) DataView \<Rightarrow> jsnum js list" where
  "summedTotals formatLabel dataView =
     totalsOrZeros (itemCount formatLabel dataView) (seriesTotals dataView)"

definition converter ::
  "(string \<Rightarrow> string) \<Rightarrow> ('i, 'o) DataView \<Rightarrow> ('i, 'o) WaffleChartViewModel" where
  "converter formatLabel dataView =
     (let st = readValues dataView
      in \<lparr>count = itemCount formatLabel dataView,
          labelsArray = categoryLabels formatLabel dataView,
          identities = map_option identity (category0 dataView),
          objects = Option.bind (category0 dataView) catObjects,
          vmValues = normalizeValues (minValues st) (maxValues st)
                       (summedTotals formatLabel dataView),
          paths = map_option snd (totalsPaths st)\<rparr>)"

text \<open>
  A call of \<^verbatim>\<open>converter\<close> on any data view. The interfaces leave the member
  \<^verbatim>\<open>categorical\<close> of a data view and the member \<^verbatim>\<open>identity\<close> of a category column
  optional; the code reads \<^verbatim>\<open>dataView.categorical.categories\<close> and
  \<^verbatim>\<open>category0.identity.slice()\<close> without a test, which throws a \<^verbatim>\<open>TypeError\<close> when
  the member is \<^verbatim>\<open>undefined\<close>. Nothing else in the function raises.
\<close>

datatype error = TypeError

record ('i, 'o) CategoryColumnArg =
  argValues :: "string list"
  argIdentity :: "'i list option"
  argObjects :: "'o list option"
  argDateTime :: bool

record ('i, 'o) CategoricalArg =
  argCategories :: "('i, 'o) CategoryColumnArg list option"
  argValueColumns :: "DataViewValueColumns option"

record ('i, 'o) DataViewArg =
  categorical :: "('i, 'o) CategoricalArg option"
  argMetadataColumns :: bool

definition categoryOfArg ::
  "('i, 'o) CategoryColumnArg \<Rightarrow> 'i list \<Rightarrow> ('i, 'o) DataViewCategoryColumn" where
  "categoryOfArg c ids =
     \<lparr>catValues = argValues c, identity = ids, catObjects = argObjects c,
      dateTime = argDateTime c\<rparr>"

definition converterCall ::
  "(string \<Rightarrow> string) \<Rightarrow> ('i, 'o) DataViewArg
     \<Rightarrow> error + ('i, 'o) WaffleChartViewModel" where
  "converterCall formatLabel dataView =
     (case categorical dataView of
        None \<Rightarrow> Inl TypeError
      | Some cat \<Rightarrow>
          (case argCategories cat of
             Some (c # cs) \<Rightarrow>
               (case argIdentity c of
                  None \<Rightarrow> Inl TypeError
                | Some ids \<Rightarrow>
                    Inr (converter formatLabel
                      \<lparr>categories = Some [categoryOfArg c ids],
                       valueColumns = argValueColumns cat,
                       metadataColumns = argMetadataColumns dataView\<rparr>))
           | _ \<Rightarrow>
               Inr (converter formatLabel
                 \<lparr>categories = None,
                  valueColumns = argValueColumns cat,
                  metadataColumns = argMetadataColumns dataView\<rparr>)))"

text \<open>The data views of the scenarios: one category column, with or without series.\<close>

definition categoryView ::
  "string list \<Rightarrow> DataViewValueColumn list option \<Rightarrow> (nat, unit) DataView" where
  "categoryView labels cols =
     \<lparr>categories = Some [\<lparr>catValues = labels, identity = [0..<length labels],
                            catObjects = None, dateTime = False\<rparr>],
      valueColumns = map_option (\<lambda>cs. \<lparr>columnList = cs, groupNames = []\<rparr>) cols,
      metadataColumns = True\<rparr>"

definition numberColumn :: "string \<Rightarrow> real list \<Rightarrow> DataViewValueColumn" where
  "numberColumn roleName xs = \<lparr>roles = [roleName], colValues = map (\<lambda>x. Val (Finite x)) xs\<rparr>"

definition cellColumn :: "string \<Rightarrow> jsnum list \<Rightarrow> DataViewValueColumn" where
  "cellColumn roleName xs = \<lparr>roles = [roleName], colValues = map Val xs\<rparr>"

text \<open>A large double for the scenarios: 100 times it is beyond the largest double.\<close>

definition hugeTotal :: real where
  "hugeTotal = 2 powi 1020"

section \<open>Drawing one waffle\<close>

text \<open>
  \<^verbatim>\<open>initWaffles\<close> creates one waffle per index below the count; no index is below
  \<^verbatim>\<open>undefined\<close>.
\<close>

definition initWaffles :: "nat option \<Rightarrow> nat" where
  "initWaffles newCount = length [0..<(case newCount of Some n \<Rightarrow> n | None \<Rightarrow> 0)]"

text \<open>
  The loop of \<^verbatim>\<open>SingleWaffleChart.update\<close> over the 10 by 10 dots, as far as it sets
  the fill: \<open>True\<close> stands for the colour of the item, \<open>False\<close> for the background
  colour. The counter is tested, then decremented. The loop sets the fill of every dot, so
  the fills before it do not matter; the model starts from a grid without fills. The loop
  only tests the counter against 0, and the decrement by 1 is taken without rounding: for a
  double from 1 to \<open>2 ^ 53\<close> the difference is a double, a counter below 1 is below 0
  after one decrement and stays there, and a counter above \<open>2 ^ 53\<close> stays above 0 for
  the 100 steps, rounded or not, so the tests come out the same.
\<close>

fun decrement :: "jsnum \<Rightarrow> jsnum" where
  "decrement (Finite x) = Finite (x - 1)"
| "decrement NegZero = Finite (- 1)"
| "decrement n = n"

definition fillStep :: "nat \<Rightarrow> nat \<Rightarrow> jsnum \<times> bool list list \<Rightarrow> jsnum \<times> bool list list" where
  "fillStep i j st =
     (decrement (fst st),
      (snd st)[i := (snd st ! i)[j := js_gt (fst st) (Finite 0)]])"

definition updateFill :: "jsnum \<Rightarrow> bool list list" where
  "updateFill percentage =
     snd (fold (\<lambda>i. fold (fillStep i) [0..<10]) (rev [0..<10])
            (percentage, replicate 10 (replicate 10 False)))"

text \<open>Closed forms of a partly filled row and of a partly filled grid, for the proofs.\<close>

definition rowFill :: "real \<Rightarrow> nat \<Rightarrow> bool list \<Rightarrow> bool list" where
  "rowFill p n row = map (\<lambda>j. if j < n then 0 < p - real j else row ! j) [0..<length row]"

definition gridFill :: "real \<Rightarrow> nat \<Rightarrow> bool list list" where
  "gridFill p d =
     map (\<lambda>i. if 10 - d \<le> i then map (\<lambda>j. 0 < p - real ((9 - i) * 10 + j)) [0..<10]
              else replicate 10 False) [0..<10]"

section \<open>Properties of the rounding\<close>

lemma binade_bounds:
  assumes "x \<noteq> 0"
  shows "2 powi binade x \<le> \<bar>x\<bar>" and "\<bar>x\<bar> < 2 powi (binade x + 1)"
proof -
  have "2 powi binade x \<le> \<bar>x\<bar> \<and> \<bar>x\<bar> < 2 powi (binade x + 1)"
  proof (cases "1 \<le> \<bar>x\<bar>")
    case True
    define n where "n = \<lfloor>\<bar>x\<bar>\<rfloor>"
    have n: "0 < n" using True by (simp add: n_def)
    have b: "2 ^ nat (bitlen n - 1) \<le> n" "n < 2 ^ nat (bitlen n)"
      using bitlen_bounds [OF n] by simp_all
    have pos: "1 \<le> bitlen n" using n by (simp add: bitlen_alt_def)
    have k: "binade x = bitlen n - 1" using True by (simp add: binade_def n_def)
    have "2 powi (bitlen n - 1) = (2::real) ^ nat (bitlen n - 1)"
      using pos by (simp add: power_int_def)
    also have "\<dots> = of_int (2 ^ nat (bitlen n - 1))" by simp
    also have "\<dots> \<le> of_int n" using b(1) by (simp only: of_int_le_iff)
    also have "\<dots> \<le> \<bar>x\<bar>" by (simp add: n_def)
    finally have lo: "2 powi binade x \<le> \<bar>x\<bar>" by (simp add: k)
    have "\<bar>x\<bar> < of_int (n + 1)" by (simp add: n_def)
    also have "n + 1 \<le> 2 ^ nat (bitlen n)" using b(2) by simp
    then have "(of_int (n + 1) :: real) \<le> of_int (2 ^ nat (bitlen n))"
      by (simp only: of_int_le_iff)
    also have "(of_int (2 ^ nat (bitlen n)) :: real) = 2 powi (binade x + 1)"
      using pos by (simp add: power_int_def k)
    finally have "\<bar>x\<bar> < 2 powi (binade x + 1)" .
    with lo show ?thesis by simp
  next
    case False
    define y where "y = 1 / \<bar>x\<bar>"
    define c where "c = \<lceil>y\<rceil>"
    have x: "0 < \<bar>x\<bar>" "\<bar>x\<bar> < 1" using assms False by simp_all
    then have y: "1 < y" by (simp add: y_def)
    then have c: "2 \<le> c" unfolding c_def by (simp add: le_ceiling_iff)
    then have c1: "0 < c - 1" by simp
    have b: "2 ^ nat (bitlen (c - 1) - 1) \<le> c - 1" "c - 1 < 2 ^ nat (bitlen (c - 1))"
      using bitlen_bounds [OF c1] by simp_all
    have pos: "1 \<le> bitlen (c - 1)" using c1 by (simp add: bitlen_alt_def)
    have k: "binade x = - bitlen (c - 1)" using False by (simp add: binade_def c_def y_def)
    have "y \<le> of_int c" by (simp add: c_def)
    also have "c \<le> 2 ^ nat (bitlen (c - 1))" using b(2) by simp
    then have "(of_int c :: real) \<le> of_int (2 ^ nat (bitlen (c - 1)))"
      by (simp only: of_int_le_iff)
    finally have up: "y \<le> 2 ^ nat (bitlen (c - 1))" by simp
    have "(of_int (2 ^ nat (bitlen (c - 1) - 1)) :: real) \<le> of_int (c - 1)"
      using b(1) by (simp only: of_int_le_iff)
    also have "(of_int (c - 1) :: real) < y" unfolding c_def by linarith
    finally have low: "2 ^ nat (bitlen (c - 1) - 1) < y" by simp
    have p1: "2 powi binade x = 1 / (2::real) ^ nat (bitlen (c - 1))"
      using pos by (simp add: k power_int_def field_simps)
    have p2: "2 powi (binade x + 1) = 1 / (2::real) ^ nat (bitlen (c - 1) - 1)"
    proof -
      have "binade x + 1 = - (bitlen (c - 1) - 1)" by (simp add: k)
      moreover have "0 \<le> bitlen (c - 1) - 1" using pos by simp
      ultimately show ?thesis
        by (cases "bitlen (c - 1) - 1 = 0") (simp_all add: power_int_def field_simps)
    qed
    have "1 / (2::real) ^ nat (bitlen (c - 1)) \<le> 1 / y"
      using up y by (intro divide_left_mono) simp_all
    moreover have "1 / y < 1 / (2::real) ^ nat (bitlen (c - 1) - 1)"
      using low y by (intro divide_strict_left_mono mult_pos_pos) simp_all
    moreover have "1 / y = \<bar>x\<bar>" by (simp add: y_def)
    ultimately show ?thesis by (simp add: p1 p2)
  qed
  then show "2 powi binade x \<le> \<bar>x\<bar>" and "\<bar>x\<bar> < 2 powi (binade x + 1)" by simp_all
qed

lemma powi_less_imp: "(2::real) powi a < 2 powi b \<Longrightarrow> a < b"
proof (rule ccontr)
  assume "2 powi a < (2::real) powi b" "\<not> a < b"
  then show False using power_int_increasing [of b a "2::real"] by simp
qed

lemma binade_eqI:
  assumes "2 powi k \<le> \<bar>x\<bar>" "\<bar>x\<bar> < 2 powi (k + 1)"
  shows "binade x = k"
proof -
  have "0 < (2::real) powi k" by simp
  with assms(1) have "0 < \<bar>x\<bar>" by linarith
  then have "x \<noteq> 0" by simp
  note b = binade_bounds [OF this]
  have "2 powi binade x < (2::real) powi (k + 1)" using b(1) assms(2) by linarith
  then have "binade x < k + 1" by (rule powi_less_imp)
  moreover have "2 powi k < (2::real) powi (binade x + 1)" using b(2) assms(1) by linarith
  then have "k < binade x + 1" by (rule powi_less_imp)
  ultimately show ?thesis by simp
qed

lemma binade_less: "x \<noteq> 0 \<Longrightarrow> \<bar>x\<bar> < 2 powi k \<Longrightarrow> binade x < k"
  using binade_bounds(1) [of x] by (intro powi_less_imp) linarith

lemma binade_ge: "2 powi k \<le> \<bar>x\<bar> \<Longrightarrow> k \<le> binade x"
proof -
  assume a: "2 powi k \<le> \<bar>x\<bar>"
  moreover have "0 < (2::real) powi k" by simp
  ultimately have "0 < \<bar>x\<bar>" by linarith
  then have "x \<noteq> 0" by simp
  then have "2 powi k < (2::real) powi (binade x + 1)" using binade_bounds(2) [of x] a by linarith
  then have "k < binade x + 1" by (rule powi_less_imp)
  then show ?thesis by simp
qed

lemma roundHalfEven_error: "\<bar>of_int (roundHalfEven y) - y\<bar> \<le> 1 / 2"
  unfolding roundHalfEven_def Let_def by (simp; linarith)

lemma roundHalfEven_of_int [simp]: "roundHalfEven (of_int n) = n"
  by (simp add: roundHalfEven_def)

lemma roundHalfEven_ge: "of_int n \<le> y \<Longrightarrow> n \<le> roundHalfEven y"
  unfolding roundHalfEven_def Let_def by (simp add: le_floor_iff; linarith)

lemma roundHalfEven_le: "y \<le> of_int n \<Longrightarrow> roundHalfEven y \<le> n"
proof -
  assume a: "y \<le> of_int n"
  have f: "\<lfloor>y\<rfloor> \<le> n" using floor_mono [OF a] by simp
  show ?thesis
  proof (cases "\<lfloor>y\<rfloor> = n")
    case True
    then have "y = of_int n" using a by linarith
    then show ?thesis by simp
  next
    case False
    then have "\<lfloor>y\<rfloor> + 1 \<le> n" using f by simp
    then show ?thesis unfolding roundHalfEven_def Let_def by simp
  qed
qed

lemma roundHalfEven_small: "\<bar>y\<bar> < 1 / 2 \<Longrightarrow> roundHalfEven y = 0"
proof -
  assume a: "\<bar>y\<bar> < 1 / 2"
  have "\<bar>of_int (roundHalfEven y) :: real\<bar> < 1"
    using roundHalfEven_error [of y] a by linarith
  then show ?thesis by linarith
qed

lemma exponent_pos [simp]: "0 < (2::real) powi exponent x"
  by simp

lemma rounded_error: "\<bar>rounded x - x\<bar> \<le> 2 powi exponent x / 2"
proof -
  let ?q = "(2::real) powi exponent x"
  have "rounded x - x = (of_int (roundHalfEven (x / ?q)) - x / ?q) * ?q"
    by (simp add: rounded_def algebra_simps)
  then have "\<bar>rounded x - x\<bar> = \<bar>of_int (roundHalfEven (x / ?q)) - x / ?q\<bar> * ?q"
    by (simp add: abs_mult)
  also have "\<dots> \<le> 1 / 2 * ?q"
    by (intro mult_right_mono roundHalfEven_error) simp
  finally show ?thesis by simp
qed

lemma rounded_nonneg: "0 \<le> x \<Longrightarrow> 0 \<le> rounded x"
  unfolding rounded_def
  by (intro mult_nonneg_nonneg) (simp_all add: roundHalfEven_ge [of 0, simplified])

lemma rounded_nonpos: "x \<le> 0 \<Longrightarrow> rounded x \<le> 0"
proof -
  assume "x \<le> 0"
  then have "x / 2 powi exponent x \<le> 0" by (simp add: divide_nonpos_pos)
  then have "roundHalfEven (x / 2 powi exponent x) \<le> 0"
    using roundHalfEven_le [of _ 0] by simp
  then show ?thesis unfolding rounded_def by (simp add: mult_nonpos_nonneg)
qed

lemma roundHalfEven_0 [simp]: "roundHalfEven 0 = 0"
  by (simp add: roundHalfEven_def)

lemma rounded_0 [simp]: "rounded 0 = 0"
  by (simp add: rounded_def)

lemma exponent_le:
  assumes "x \<noteq> 0" "\<bar>x\<bar> < 2 powi k" "- 1074 \<le> j" "k - 53 \<le> j"
  shows "exponent x \<le> j"
  using binade_less [OF assms(1,2)] assms(3,4) by (simp add: exponent_def)

lemma rounded_exact:
  assumes "x = of_int m * 2 powi e" "\<bar>m\<bar> < 2 ^ 53" "- 1074 \<le> e" "x \<noteq> 0"
  shows "rounded x = x"
proof -
  have "\<bar>x\<bar> = of_int \<bar>m\<bar> * 2 powi e" by (simp add: assms(1) abs_mult)
  also have "\<dots> < of_int (2 ^ 53) * 2 powi e"
    using assms(2) by (intro mult_strict_right_mono) (simp_all only: of_int_less_iff zero_less_power_int zero_less_numeral)
  also have "\<dots> = 2 powi (e + 53)" by (simp add: power_int_add)
  finally have "exponent x \<le> e" using assms(3,4) by (intro exponent_le [of x "e + 53"]) simp_all
  then obtain d where d: "e = exponent x + int d"
    by (metis zle_iff_zadd)
  have "x / 2 powi exponent x = of_int m * (2 powi e / 2 powi exponent x)"
    by (simp add: assms(1))
  also have "2 powi e / 2 powi exponent x = (2::real) powi (e - exponent x)"
    by (simp add: power_int_diff)
  also have "\<dots> = 2 ^ d" by (simp add: d)
  finally have q: "x / 2 powi exponent x = of_int (m * 2 ^ d)" by simp
  have "roundHalfEven (x / 2 powi exponent x) = m * 2 ^ d"
    by (simp only: q roundHalfEven_of_int)
  then have "rounded x = of_int (m * 2 ^ d) * 2 powi exponent x"
    by (simp only: rounded_def)
  also have "\<dots> = x / 2 powi exponent x * 2 powi exponent x" by (simp only: q)
  also have "\<dots> = x" by simp
  finally show ?thesis .
qed

lemma fl_exact:
  assumes "x = of_int m * 2 powi e" "\<bar>m\<bar> < 2 ^ 53" "- 1074 \<le> e" "\<bar>x\<bar> < 2 powi 1024"
    and "x \<noteq> 0"
  shows "fl x = Finite x"
  using rounded_exact [OF assms(1,2,3,5)] assms(4,5) by (simp add: fl_def)

lemma fl_of_int:
  assumes "\<bar>n\<bar> < 2 ^ 53" "n \<noteq> 0"
  shows "fl (of_int n) = Finite (of_int n)"
proof (rule fl_exact [of _ n 0])
  have "\<bar>of_int n :: real\<bar> = of_int \<bar>n\<bar>" by simp
  also have "\<dots> < of_int (2 ^ 53)" using assms(1) by (simp only: of_int_less_iff)
  also have "\<dots> < (2::real) powi 1024" by simp
  finally show "\<bar>of_int n :: real\<bar> < 2 powi 1024" .
qed (use assms in simp_all)

lemma fl_0 [simp]: "fl 0 = Finite 0"
  by (simp add: fl_def zero_def)

lemma rounded_error_below:
  assumes "\<bar>x\<bar> < 2 powi k" "- 1021 \<le> k"
  shows "\<bar>rounded x - x\<bar> \<le> 2 powi (k - 54)"
proof (cases "x = 0")
  case True
  then show ?thesis by simp
next
  case False
  have "exponent x \<le> k - 53" using False assms by (intro exponent_le [of x k]) simp_all
  then have "(2::real) powi exponent x \<le> 2 powi (k - 53)"
    by (intro power_int_increasing) simp_all
  also have "\<dots> = 2 * 2 powi (k - 54)"
    using power_int_add [of "2::real" 1 "k - 54"] by simp
  finally show ?thesis using rounded_error [of x] by simp
qed

lemma fl_finite_below:
  assumes "\<bar>x\<bar> < 2 powi k" "- 1021 \<le> k" "k \<le> 1023"
  shows "fl x = (if rounded x = 0 then zero (x < 0) else Finite (rounded x))"
proof -
  have "\<bar>rounded x\<bar> \<le> \<bar>x\<bar> + 2 powi (k - 54)"
    using rounded_error_below [OF assms(1,2)] by linarith
  also have "(2::real) powi (k - 54) \<le> 2 powi k" by (intro power_int_increasing) simp_all
  finally have "\<bar>rounded x\<bar> < 2 * 2 powi k" using assms(1) by linarith
  also have "2 * 2 powi k = (2::real) powi (k + 1)"
    using power_int_add [of "2::real" k 1] by simp
  also have "\<dots> \<le> 2 powi 1024" using assms(3) by (intro power_int_increasing) simp_all
  finally show ?thesis by (simp add: fl_def)
qed

lemma rounded_error_mixed: "\<bar>rounded x - x\<bar> \<le> \<bar>x\<bar> / 2 ^ 53 + 2 powi (- 1075)"
proof (cases "x = 0")
  case True
  then show ?thesis by simp
next
  case False
  have "(2::real) powi exponent x \<le> 2 powi (binade x - 52) + 2 powi (- 1074)"
    by (simp add: exponent_def max_def)
  also have "(2::real) powi (binade x - 52) = 2 powi binade x / 2 ^ 52"
    by (simp add: power_int_diff)
  also have "\<dots> \<le> \<bar>x\<bar> / 2 ^ 52"
    using binade_bounds(1) [OF False] by (intro divide_right_mono) simp_all
  finally have "(2::real) powi exponent x / 2 \<le> (\<bar>x\<bar> / 2 ^ 52 + 2 powi (- 1074)) / 2"
    by simp
  also have "\<dots> = \<bar>x\<bar> / 2 ^ 53 + 2 powi (- 1075)"
    using power_int_add [of "2::real" "- 1075" 1] by (simp add: field_simps)
  finally show ?thesis using rounded_error [of x] by linarith
qed

lemma fl_underflow:
  assumes "\<bar>x\<bar> < 2 powi (- 1075)"
  shows "fl x = zero (x < 0)"
proof (cases "x = 0")
  case True
  then show ?thesis by (simp add: zero_def)
next
  case False
  have "exponent x \<le> - 1074" using False assms by (intro exponent_le [of x "- 1075"]) simp_all
  then have e: "exponent x = - 1074" by (simp add: exponent_def)
  have "\<bar>x / 2 powi (- 1074)\<bar> = \<bar>x\<bar> / 2 powi (- 1074)" by (simp add: abs_divide)
  also have "\<dots> < 2 powi (- 1075) / 2 powi (- 1074)"
    using assms by (intro divide_strict_right_mono) simp_all
  also have "\<dots> = (1 / 2 :: real)" by (simp add: power_int_minus field_simps)
  finally have "roundHalfEven (x / 2 powi (- 1074)) = 0" by (rule roundHalfEven_small)
  then have "rounded x = 0" by (simp add: rounded_def e)
  then show ?thesis by (simp add: fl_def)
qed

lemma fl_overflow:
  assumes "2 powi 1024 \<le> \<bar>x\<bar>"
  shows "fl x = infinity (x < 0)"
proof -
  have b: "1024 \<le> binade x" using assms by (rule binade_ge)
  then have e: "exponent x = binade x - 52" by (simp add: exponent_def)
  have "0 < (2::real) powi 1024" by simp
  with assms have "0 < \<bar>x\<bar>" by linarith
  then have x: "x \<noteq> 0" by simp
  let ?q = "(2::real) powi exponent x"
  have "(2::real) ^ 52 = 2 powi binade x / ?q" by (simp add: e power_int_diff)
  also have "\<dots> \<le> \<bar>x\<bar> / ?q"
    using binade_bounds(1) [OF x] by (intro divide_right_mono) simp_all
  also have "\<dots> = \<bar>x / ?q\<bar>" by (simp add: abs_divide)
  finally have big: "of_int (2 ^ 52) \<le> \<bar>x / ?q\<bar>" by simp
  have "2 ^ 52 \<le> \<bar>roundHalfEven (x / ?q)\<bar>"
  proof (cases "0 \<le> x / ?q")
    case True
    then have "of_int (2 ^ 52) \<le> x / ?q" using big by simp
    then have "2 ^ 52 \<le> roundHalfEven (x / ?q)" by (rule roundHalfEven_ge)
    then show ?thesis by simp
  next
    case False
    then have "x / ?q \<le> of_int (- (2 ^ 52))" using big by simp
    then have "roundHalfEven (x / ?q) \<le> - (2 ^ 52)" by (rule roundHalfEven_le)
    then show ?thesis by simp
  qed
  then have "(of_int (2 ^ 52) :: real) \<le> of_int \<bar>roundHalfEven (x / ?q)\<bar>"
    by (simp only: of_int_le_iff)
  then have "2 ^ 52 * ?q \<le> \<bar>of_int (roundHalfEven (x / ?q))\<bar> * ?q"
    by (intro mult_right_mono) simp_all
  also have "\<dots> = \<bar>rounded x\<bar>" by (simp add: rounded_def abs_mult)
  also have "2 ^ 52 * ?q = (2::real) powi binade x"
    using power_int_add [of "2::real" 52 "binade x - 52"] by (simp add: e)
  finally have "(2::real) powi binade x \<le> \<bar>rounded x\<bar>" .
  moreover have "(2::real) powi 1024 \<le> 2 powi binade x"
    using b by (intro power_int_increasing) simp_all
  ultimately show ?thesis by (simp add: fl_def)
qed

lemma fl_pos_cases:
  assumes "0 < x"
  shows "fl x = PosInfinity \<or> (\<exists>v. fl x = Finite v \<and> 0 \<le> v)"
  using rounded_nonneg [of x] assms by (auto simp: fl_def infinity_def zero_def)

lemma fl_neg_cases:
  assumes "x < 0"
  shows "fl x = NegInfinity \<or> fl x = NegZero \<or> (\<exists>v. fl x = Finite v \<and> v < 0)"
  using rounded_nonpos [of x] assms by (auto simp: fl_def infinity_def zero_def)

lemma fl_eqI:
  assumes "2 powi k \<le> \<bar>x\<bar>" "\<bar>x\<bar> < 2 powi (k + 1)"
    and "e = max (k - 52) (- 1074)"
    and "roundHalfEven (x / 2 powi e) = m"
    and "v = of_int m * 2 powi e"
    and "\<bar>v\<bar> < 2 powi 1024" "v \<noteq> 0"
  shows "fl x = Finite v"
proof -
  have "binade x = k" using assms(1,2) by (rule binade_eqI)
  then have "exponent x = e" by (simp add: exponent_def assms(3))
  then have "rounded x = v" by (simp only: rounded_def assms(4,5))
  then show ?thesis using assms(6,7) by (simp add: fl_def)
qed

lemma fl_numeral [simp]:
  "numeral n < (2::int) ^ 53 \<Longrightarrow> fl (numeral n) = Finite (numeral n)"
  using fl_of_int [of "numeral n"] by simp

lemma fl_neg_numeral [simp]:
  "numeral n < (2::int) ^ 53 \<Longrightarrow> fl (- numeral n) = Finite (- numeral n)"
  using fl_of_int [of "- numeral n"] by simp

lemma fl_1 [simp]: "fl 1 = Finite 1"
  using fl_of_int [of 1] by simp

lemma fl_normal:
  assumes "2 powi (- 1022) \<le> \<bar>x\<bar>" "\<bar>x\<bar> \<le> 2 powi 1023"
  shows "fl x = Finite (rounded x)" and "\<bar>rounded x - x\<bar> \<le> \<bar>x\<bar> / 2 ^ 53"
proof -
  have "0 < (2::real) powi (- 1022)" by simp
  with assms(1) have pos: "0 < \<bar>x\<bar>" by linarith
  then have x: "x \<noteq> 0" by simp
  have "- 1022 \<le> binade x" using assms(1) by (rule binade_ge)
  then have e: "exponent x = binade x - 52" by (simp add: exponent_def)
  have "(2::real) powi exponent x = 2 powi binade x / 2 ^ 52"
    by (simp add: e power_int_diff)
  also have "\<dots> \<le> \<bar>x\<bar> / 2 ^ 52"
    using binade_bounds(1) [OF x] by (intro divide_right_mono) simp_all
  finally have "(2::real) powi exponent x / 2 \<le> \<bar>x\<bar> / 2 ^ 53" by simp
  then show err: "\<bar>rounded x - x\<bar> \<le> \<bar>x\<bar> / 2 ^ 53"
    using rounded_error [of x] by linarith
  have "\<bar>x\<bar> / 2 ^ 53 < \<bar>x\<bar>" using pos by simp
  then have nz: "rounded x \<noteq> 0" using err by linarith
  have "\<bar>rounded x\<bar> \<le> \<bar>x\<bar> + \<bar>x\<bar> / 2 ^ 53" using err by linarith
  also have "\<dots> < 2 * \<bar>x\<bar>" using pos by simp
  also have "\<dots> \<le> 2 * 2 powi 1023" using assms(2) by simp
  also have "\<dots> = (2::real) powi 1024"
    using power_int_add [of "2::real" 1023 1] by simp
  finally show "fl x = Finite (rounded x)" using nz by (simp add: fl_def)
qed

section \<open>Properties of the operators\<close>

lemma js_gt_trans: "js_gt a b \<Longrightarrow> js_gt b c \<Longrightarrow> js_gt a c"
  by (cases a; cases b; cases c) simp_all

lemma js_gt_not_NaN: "js_gt a b \<Longrightarrow> a \<noteq> NaN"
  by (cases a; cases b) simp_all

lemma js_gt_total: "b \<noteq> NaN \<Longrightarrow> \<not> js_gt c b \<Longrightarrow> js_gt c z \<Longrightarrow> js_gt b z"
  by (cases b; cases c; cases z) simp_all

lemma nonneg_fl: "0 < x \<Longrightarrow> nonneg (fl x)"
  using fl_pos_cases [of x] by auto

lemma js_mul_nonneg: "nonneg a \<Longrightarrow> 0 < c \<Longrightarrow> nonneg (js_mul a (Finite c))"
  by (cases a)
    (auto simp: js_mul_def is_infinite_def is_zero_def infinity_def zero_def nonneg_fl)

lemma js_div_nonneg: "nonneg a \<Longrightarrow> 0 < c \<Longrightarrow> nonneg (js_div a (Finite c))"
  by (cases a)
    (auto simp: js_div_def is_infinite_def is_zero_def infinity_def zero_def nonneg_fl)

lemma js_le_zero_nonneg: "nonneg a \<Longrightarrow> js_le (Finite 0) a"
  by (cases a) (simp_all add: js_le_def)

lemma nonneg_le_zero: "nonneg a \<Longrightarrow> js_le a (Finite 0) \<Longrightarrow> a = Finite 0"
  by (cases a) (simp_all add: js_le_def)

lemma js_mul_zero_left [simp]: "0 \<le> c \<Longrightarrow> js_mul (Finite 0) (Finite c) = Finite 0"
  by (simp add: js_mul_def is_infinite_def zero_def)

lemma js_mul_zero_right [simp]: "0 \<le> v \<Longrightarrow> js_mul (Finite v) (Finite 0) = Finite 0"
  by (simp add: js_mul_def is_infinite_def zero_def)

lemma js_div_zero_left [simp]: "0 < c \<Longrightarrow> js_div (Finite 0) (Finite c) = Finite 0"
  by (simp add: js_div_def is_infinite_def is_zero_def zero_def)

section \<open>Properties of the layout search\<close>

lemma calculateArea_shape [simp]:
  "rows (calculateArea v cnt i j) = i" "columns (calculateArea v cnt i j) = j"
  by (simp_all add: calculateArea_def Let_def)

lemma layoutStep_admissible: "admissible cnt b \<Longrightarrow> admissible cnt (layoutStep v cnt i j b)"
  by (simp add: layoutStep_def Let_def admissible_def)

lemma inner_admissible:
  "admissible cnt b \<Longrightarrow> admissible cnt (fold (layoutStep v cnt i) js b)"
  by (induction js arbitrary: b) (simp_all add: layoutStep_admissible)

lemma outer_admissible:
  "admissible cnt b \<Longrightarrow> admissible cnt (fold (\<lambda>i. fold (layoutStep v cnt i) js) is b)"
  by (induction "is" arbitrary: b) (simp_all add: inner_admissible)

lemma getBestLayout_admissible: "admissible cnt (getBestLayout v cnt)"
  unfolding getBestLayout_def by (rule outer_admissible) (simp add: admissible_def)

text \<open>The best area is never NaN, and once above a bound it stays above it.\<close>

lemma layoutStep_notNaN:
  "totalArea b \<noteq> NaN \<Longrightarrow> totalArea (layoutStep v cnt i j b) \<noteq> NaN"
  by (auto simp: layoutStep_def Let_def dest: js_gt_not_NaN)

lemma layoutStep_above:
  "js_gt (totalArea b) z \<Longrightarrow> js_gt (totalArea (layoutStep v cnt i j b)) z"
  by (auto simp: layoutStep_def Let_def intro: js_gt_trans)

lemma layoutStep_reaches:
  assumes "cnt \<le> i * j" "js_gt (totalArea (calculateArea v cnt i j)) z" "totalArea b \<noteq> NaN"
  shows "js_gt (totalArea (layoutStep v cnt i j b)) z"
  using assms by (auto simp: layoutStep_def Let_def intro: js_gt_total)

lemma inner_notNaN:
  "totalArea b \<noteq> NaN \<Longrightarrow> totalArea (fold (layoutStep v cnt i) js b) \<noteq> NaN"
  by (induction js arbitrary: b) (simp_all add: layoutStep_notNaN)

lemma inner_above:
  "js_gt (totalArea b) z \<Longrightarrow> js_gt (totalArea (fold (layoutStep v cnt i) js b)) z"
  by (induction js arbitrary: b) (simp_all add: layoutStep_above)

lemma inner_reaches:
  assumes "j \<in> set js" "cnt \<le> i * j" "js_gt (totalArea (calculateArea v cnt i j)) z"
    and "totalArea b \<noteq> NaN"
  shows "js_gt (totalArea (fold (layoutStep v cnt i) js b)) z"
  using assms(1,4)
proof (induction js arbitrary: b)
  case Nil
  then show ?case by simp
next
  case (Cons k js)
  show ?case
  proof (cases "k = j")
    case True
    have "js_gt (totalArea (layoutStep v cnt i j b)) z"
      using assms(2,3) Cons.prems(2) by (rule layoutStep_reaches)
    then show ?thesis using True by (simp add: inner_above)
  next
    case False
    with Cons.prems have "j \<in> set js" by simp
    moreover have "totalArea (layoutStep v cnt i k b) \<noteq> NaN"
      using Cons.prems(2) by (rule layoutStep_notNaN)
    ultimately show ?thesis using Cons.IH by simp
  qed
qed

lemma outer_notNaN:
  "totalArea b \<noteq> NaN \<Longrightarrow> totalArea (fold (\<lambda>i. fold (layoutStep v cnt i) js) is b) \<noteq> NaN"
  by (induction "is" arbitrary: b) (simp_all add: inner_notNaN)

lemma outer_above:
  "js_gt (totalArea b) z \<Longrightarrow> js_gt (totalArea (fold (\<lambda>i. fold (layoutStep v cnt i) js) is b)) z"
  by (induction "is" arbitrary: b) (simp_all add: inner_above)

lemma outer_reaches:
  assumes "i \<in> set is" "j \<in> set js" "cnt \<le> i * j"
    and "js_gt (totalArea (calculateArea v cnt i j)) z" "totalArea b \<noteq> NaN"
  shows "js_gt (totalArea (fold (\<lambda>i. fold (layoutStep v cnt i) js) is b)) z"
  using assms(1,5)
proof (induction "is" arbitrary: b)
  case Nil
  then show ?case by simp
next
  case (Cons k "is")
  show ?case
  proof (cases "k = i")
    case True
    have "js_gt (totalArea (fold (layoutStep v cnt i) js b)) z"
      using assms(2,3,4) Cons.prems(2) by (rule inner_reaches)
    then show ?thesis using True by (simp add: outer_above)
  next
    case False
    with Cons.prems have "i \<in> set is" by simp
    moreover have "totalArea (fold (layoutStep v cnt k) js b) \<noteq> NaN"
      using Cons.prems(2) by (rule inner_notNaN)
    ultimately show ?thesis using Cons.IH by simp
  qed
qed

lemma getBestLayout_reaches:
  assumes "1 \<le> i" "i \<le> cnt" "1 \<le> j" "j \<le> cnt" "cnt \<le> i * j"
    and "js_gt (totalArea (calculateArea v cnt i j)) (Finite 0)"
  shows "js_gt (totalArea (getBestLayout v cnt)) (Finite 0)"
proof -
  have "i \<in> set [1..<Suc cnt]" "j \<in> set [1..<Suc cnt]" using assms(1-4) by auto
  then show ?thesis
    unfolding getBestLayout_def using assms(5,6)
    by (rule outer_reaches) (simp add: initialLayout_def)
qed

text \<open>A candidate that is not above the best area leaves the best layout as it is.\<close>

lemma layoutStep_keeps:
  "(cnt \<le> i * j \<Longrightarrow> \<not> js_gt (totalArea (calculateArea v cnt i j)) (totalArea b))
     \<Longrightarrow> layoutStep v cnt i j b = b"
  by (auto simp: layoutStep_def Let_def)

lemma inner_keeps:
  "(\<And>j. j \<in> set js \<Longrightarrow> cnt \<le> i * j
       \<Longrightarrow> \<not> js_gt (totalArea (calculateArea v cnt i j)) (totalArea b))
     \<Longrightarrow> fold (layoutStep v cnt i) js b = b"
  by (induction js) (simp_all add: layoutStep_keeps)

lemma outer_keeps:
  "(\<And>i j. i \<in> set is \<Longrightarrow> j \<in> set js \<Longrightarrow> cnt \<le> i * j
       \<Longrightarrow> \<not> js_gt (totalArea (calculateArea v cnt i j)) (totalArea b))
     \<Longrightarrow> fold (\<lambda>i. fold (layoutStep v cnt i) js) is b = b"
  by (induction "is") (simp_all add: inner_keeps)

lemma getBestLayout_keeps:
  assumes "\<And>i j. 1 \<le> i \<Longrightarrow> i \<le> cnt \<Longrightarrow> 1 \<le> j \<Longrightarrow> j \<le> cnt \<Longrightarrow> cnt \<le> i * j
             \<Longrightarrow> \<not> js_gt (totalArea (calculateArea v cnt i j)) (Finite 0)"
  shows "getBestLayout v cnt = initialLayout"
  unfolding getBestLayout_def
  by (rule outer_keeps) (use assms in \<open>auto simp: initialLayout_def\<close>)

text \<open>Sizes that are large enough give areas above 0.\<close>

lemma powi_le_pos: "2 powi k \<le> (v::real) \<Longrightarrow> 0 < v"
proof -
  assume "2 powi k \<le> v"
  moreover have "0 < (2::real) powi k" by simp
  ultimately show ?thesis by linarith
qed

lemma rounded_ge_powi:
  assumes "2 powi k \<le> x" "- 1074 \<le> k"
  shows "2 powi k \<le> rounded x"
proof -
  have pos: "0 < (2::real) powi k" by simp
  with assms(1) have x: "0 < x" by linarith
  then have k: "k \<le> binade x" using assms(1) by (intro binade_ge) simp
  then have e: "exponent x \<le> binade x" using assms(2) by (simp add: exponent_def)
  then obtain d where d: "binade x = exponent x + int d" by (metis zle_iff_zadd)
  let ?q = "(2::real) powi exponent x"
  have "(of_int (2 ^ d) :: real) = 2 powi (binade x - exponent x)" by (simp add: d)
  also have "\<dots> = 2 powi binade x / ?q" by (simp add: power_int_diff)
  also have "\<dots> \<le> x / ?q"
    using binade_bounds(1) [of x] x by (intro divide_right_mono) simp_all
  finally have "2 ^ d \<le> roundHalfEven (x / ?q)" by (rule roundHalfEven_ge)
  then have "(of_int (2 ^ d) :: real) \<le> of_int (roundHalfEven (x / ?q))"
    by (simp only: of_int_le_iff)
  then have "of_int (2 ^ d) * ?q \<le> rounded x"
    unfolding rounded_def by (intro mult_right_mono) simp_all
  moreover have "of_int (2 ^ d) * ?q = (2::real) powi (int d + exponent x)"
    by (simp add: power_int_add)
  moreover have "int d + exponent x = binade x" by (simp add: d)
  moreover have "(2::real) powi k \<le> 2 powi binade x"
    using k by (intro power_int_increasing) simp_all
  ultimately show ?thesis by simp
qed

lemma atLeastPow_fl:
  assumes "2 powi k \<le> x" "- 1074 \<le> k"
  shows "atLeastPow k (fl x)"
proof -
  have "0 < (2::real) powi k" by simp
  with assms(1) have "0 < x" by linarith
  moreover have "2 powi k \<le> rounded x" using assms by (rule rounded_ge_powi)
  moreover have "0 < (2::real) powi k" by simp
  ultimately show ?thesis by (auto simp: fl_def infinity_def zero_def)
qed

lemma atLeastPow_above_zero: "atLeastPow k a \<Longrightarrow> js_gt a (Finite 0)"
proof (cases a)
  case (Finite v)
  assume "atLeastPow k a"
  then have "2 powi k \<le> v" using Finite by simp
  then have "0 < v" by (rule powi_le_pos)
  then show ?thesis using Finite by simp
qed simp_all

lemma atLeastPow_mul:
  assumes "atLeastPow k a" "atLeastPow l b" "- 1074 \<le> k + l"
  shows "atLeastPow (k + l) (js_mul a b)"
proof -
  have pk: "0 < (2::real) powi k" and pl: "0 < (2::real) powi l" by simp_all
  show ?thesis
  proof (cases "is_infinite a \<or> is_infinite b")
    case True
    then show ?thesis using assms(1,2)
      by (cases a; cases b)
        (auto simp: js_mul_def is_infinite_def is_zero_def infinity_def dest: powi_le_pos)
  next
    case False
    then obtain v u where ab: "a = Finite v" "b = Finite u" "2 powi k \<le> v" "2 powi l \<le> u"
      using assms(1,2) by (cases a; cases b) (auto simp: is_infinite_def)
    have "2 powi (k + l) = (2::real) powi k * 2 powi l" by (simp add: power_int_add)
    also have "\<dots> \<le> v * u"
      using ab(3,4) powi_le_pos [OF ab(3)] by (intro mult_mono) simp_all
    finally have le: "2 powi (k + l) \<le> v * u" .
    moreover have "0 < (2::real) powi (k + l)" by simp
    ultimately have "v * u \<noteq> 0" by linarith
    then show ?thesis
      using atLeastPow_fl [OF le assms(3)] by (simp add: js_mul_def is_infinite_def ab)
  qed
qed

lemma atLeastPow_div:
  assumes "atLeastPow k a" "0 < c" "c \<le> 2 powi m" "- 1074 \<le> k - m"
  shows "atLeastPow (k - m) (js_div a (Finite c))"
proof (cases a)
  case (Finite v)
  have pk: "0 < (2::real) powi k" by simp
  have v: "2 powi k \<le> v" using assms(1) Finite by simp
  then have vpos: "0 < v" using pk by linarith
  have "2 powi (k - m) = (2::real) powi k / 2 powi m" by (simp add: power_int_diff)
  also have "\<dots> \<le> v / 2 powi m" using v by (intro divide_right_mono) simp_all
  also have "\<dots> \<le> v / c" using assms(2,3) vpos by (intro divide_left_mono) simp_all
  finally have "atLeastPow (k - m) (fl (v / c))" using assms(4) by (rule atLeastPow_fl)
  then show ?thesis
    using vpos assms(2) by (simp add: js_div_def is_infinite_def is_zero_def Finite)
next
  case PosInfinity
  then show ?thesis using assms(2) by (simp add: js_div_def is_infinite_def infinity_def)
qed (use assms(1) in simp_all)

lemma atLeastPow_weaken: "atLeastPow k a \<Longrightarrow> l \<le> k \<Longrightarrow> atLeastPow l a"
proof (cases a)
  case (Finite v)
  assume "atLeastPow k a" "l \<le> k"
  then have "2 powi k \<le> v" "(2::real) powi l \<le> 2 powi k"
    using Finite by (simp_all add: power_int_increasing)
  then show ?thesis using Finite by simp
qed simp_all

lemma getWaffleSize_atLeast:
  assumes "atLeastPow k (width c)" "atLeastPow k (height c)" "- 1073 \<le> k"
  shows "atLeastPow (k - 1) (width (getWaffleSize c)) \<and> atLeastPow (k - 1) (height (getWaffleSize c))"
proof -
  have c800: "atLeastPow 9 (Finite 800)" and c600: "atLeastPow 9 (Finite 600)" by simp_all
  have "atLeastPow (k + 9) (js_mul (width c) (Finite 800))"
    using assms(1) c800 assms(3) by (intro atLeastPow_mul) simp_all
  then have "atLeastPow (k + 9 - 10) (js_div (js_mul (width c) (Finite 800)) (Finite 600))"
    using assms(3) by (intro atLeastPow_div) simp_all
  then have t: "atLeastPow (k - 1) (js_div (js_mul (width c) (Finite 800)) (Finite 600))" by simp
  have "atLeastPow (k + 9) (js_mul (height c) (Finite 600))"
    using assms(2) c600 assms(3) by (intro atLeastPow_mul) simp_all
  then have "atLeastPow (k + 9 - 10) (js_div (js_mul (height c) (Finite 600)) (Finite 800))"
    using assms(3) by (intro atLeastPow_div) simp_all
  then have u: "atLeastPow (k - 1) (js_div (js_mul (height c) (Finite 600)) (Finite 800))" by simp
  show ?thesis
    using t u atLeastPow_weaken [OF assms(1), of "k - 1"] atLeastPow_weaken [OF assms(2), of "k - 1"]
    by (simp add: getWaffleSize_def)
qed

lemma calculateArea_above_zero:
  assumes "atLeastPow (- 500) (width v)" "atLeastPow (- 500) (height v)"
    and "1 \<le> i" "1 \<le> j" "1 \<le> cnt" "i \<le> 2 ^ 32" "j \<le> 2 ^ 32"
  shows "js_gt (totalArea (calculateArea v cnt i j)) (Finite 0)"
proof -
  let ?cell = "\<lparr>width = js_div (width v) (ofCount j), height = js_div (height v) (ofCount i)\<rparr>"
  have ri: "0 < real i" "real i \<le> 2 powi 32" and rj: "0 < real j" "real j \<le> 2 powi 32"
    using assms(3,4,6,7) by (simp_all add: numeral_power_le_of_nat_cancel_iff
        of_nat_le_numeral_power_cancel_iff)
  have "atLeastPow (- 500 - 32) (width ?cell)"
    using assms(1) rj unfolding ofCount_def by (simp only: IViewport.simps, intro atLeastPow_div) simp_all
  moreover have "atLeastPow (- 500 - 32) (height ?cell)"
    using assms(2) ri unfolding ofCount_def by (simp only: IViewport.simps, intro atLeastPow_div) simp_all
  ultimately have "atLeastPow (- 532 - 1) (width (getWaffleSize ?cell))
      \<and> atLeastPow (- 532 - 1) (height (getWaffleSize ?cell))"
    by (intro getWaffleSize_atLeast) simp_all
  then have "atLeastPow (- 533 + - 533)
      (js_mul (width (getWaffleSize ?cell)) (height (getWaffleSize ?cell)))"
    by (intro atLeastPow_mul) simp_all
  moreover have "atLeastPow 0 (ofCount cnt)" using assms(5) by (simp add: ofCount_def)
  ultimately have "atLeastPow (- 1066 + 0)
      (js_mul (js_mul (width (getWaffleSize ?cell)) (height (getWaffleSize ?cell))) (ofCount cnt))"
    by (intro atLeastPow_mul) simp_all
  then show ?thesis by (simp add: calculateArea_def Let_def atLeastPow_above_zero)
qed

text \<open>The operators on finite operands, for the evaluation of examples.\<close>

lemma js_div_finite: "x \<noteq> 0 \<Longrightarrow> y \<noteq> 0 \<Longrightarrow> js_div (Finite x) (Finite y) = fl (x / y)"
  by (simp add: js_div_def is_infinite_def is_zero_def)

lemma js_mul_finite: "x \<noteq> 0 \<Longrightarrow> y \<noteq> 0 \<Longrightarrow> js_mul (Finite x) (Finite y) = fl (x * y)"
  by (simp add: js_mul_def is_infinite_def is_zero_def)

lemma js_add_finite: "x + y \<noteq> 0 \<Longrightarrow> js_add (Finite x) (Finite y) = fl (x + y)"
  by (simp add: js_add_def is_infinite_def)

lemma roundHalfEven_eqI: "\<bar>y - of_int m\<bar> < 1 / 2 \<Longrightarrow> roundHalfEven y = m"
proof -
  assume a: "\<bar>y - of_int m\<bar> < 1 / 2"
  have "\<bar>of_int (roundHalfEven y) - y\<bar> \<le> 1 / 2" by (rule roundHalfEven_error)
  with a have "\<bar>of_int (roundHalfEven y) - (of_int m :: real)\<bar> < 1" by linarith
  then have "\<bar>of_int (roundHalfEven y - m) :: real\<bar> < 1" by simp
  then have "\<bar>roundHalfEven y - m\<bar> < 1" by (simp only: of_int_abs [symmetric] of_int_less_1_iff)
  then show ?thesis by linarith
qed

lemma powi_mono: "a \<le> b \<Longrightarrow> (2::real) powi a \<le> 2 powi b"
  by (rule power_int_increasing) simp_all

lemma powi_add2: "(2::real) powi a * 2 powi b = 2 powi (a + b)"
  by (simp add: power_int_add)

lemma js_gt_irrefl: "\<not> js_gt a a"
  by (cases a) simp_all

lemma negative_fl: "x < 0 \<Longrightarrow> negative (fl x)"
  using fl_neg_cases [of x] by auto

text \<open>
  C1, as the code has it. For every item count above 0 and every viewport, the layout that
  \<^verbatim>\<open>getBestLayout\<close> returns has at least as many cells as there are items exactly when some
  grid of the search (rows and columns from 1 to the count, with enough cells) has a computed
  area above 0. This is so for every viewport whose sizes are at least \<open>2 powi (- 500)\<close> and
  every count up to \<open>2 ^ 32\<close>.
\<close>

theorem getBestLayout_holds_all_items:
  assumes "0 < cnt"
  shows "(rows (getBestLayout viewport cnt) * columns (getBestLayout viewport cnt) \<ge> cnt)
           = (\<exists>i j. 1 \<le> i \<and> i \<le> cnt \<and> 1 \<le> j \<and> j \<le> cnt \<and> cnt \<le> i * j
                \<and> js_gt (totalArea (calculateArea viewport cnt i j)) (Finite 0))
       \<and> (atLeastPow (- 500) (width viewport) \<and> atLeastPow (- 500) (height viewport) \<and> cnt \<le> 2 ^ 32
          \<longrightarrow> rows (getBestLayout viewport cnt) * columns (getBestLayout viewport cnt) \<ge> cnt)"
proof -
  let ?some = "\<exists>i j. 1 \<le> i \<and> i \<le> cnt \<and> 1 \<le> j \<and> j \<le> cnt \<and> cnt \<le> i * j
                \<and> js_gt (totalArea (calculateArea viewport cnt i j)) (Finite 0)"
  have reach: "rows (getBestLayout viewport cnt) * columns (getBestLayout viewport cnt) \<ge> cnt"
    if "1 \<le> i" "i \<le> cnt" "1 \<le> j" "j \<le> cnt" "cnt \<le> i * j"
      "js_gt (totalArea (calculateArea viewport cnt i j)) (Finite 0)" for i j
  proof -
    have "js_gt (totalArea (getBestLayout viewport cnt)) (Finite 0)"
      using that by (rule getBestLayout_reaches)
    then have "getBestLayout viewport cnt \<noteq> initialLayout"
      by (auto simp: initialLayout_def)
    moreover have "admissible cnt (getBestLayout viewport cnt)"
      by (rule getBestLayout_admissible)
    ultimately show ?thesis by (simp add: admissible_def)
  qed
  have none: "\<not> rows (getBestLayout viewport cnt) * columns (getBestLayout viewport cnt) \<ge> cnt"
    if "\<not> ?some"
  proof -
    have "getBestLayout viewport cnt = initialLayout"
      using that by (intro getBestLayout_keeps) blast
    then show ?thesis using assms by (simp add: initialLayout_def)
  qed
  have large: "rows (getBestLayout viewport cnt) * columns (getBestLayout viewport cnt) \<ge> cnt"
    if "atLeastPow (- 500) (width viewport)" "atLeastPow (- 500) (height viewport)" "cnt \<le> 2 ^ 32"
  proof -
    have "js_gt (totalArea (calculateArea viewport cnt 1 cnt)) (Finite 0)"
      using that assms by (intro calculateArea_above_zero) simp_all
    then show ?thesis using assms by (intro reach [of 1 cnt]) simp_all
  qed
  have "(rows (getBestLayout viewport cnt) * columns (getBestLayout viewport cnt) \<ge> cnt) = ?some"
    using reach none by blast
  then show ?thesis using large by blast
qed

theorem getBestLayout_holds_all_items_witness:
  "(0::nat) < 1
   \<and> atLeastPow (- 500) (width \<lparr>width = Finite 600, height = Finite 800\<rparr>)
   \<and> atLeastPow (- 500) (height \<lparr>width = Finite 600, height = Finite 800\<rparr>)
   \<and> (1::nat) \<le> 2 ^ 32
   \<and> rows (getBestLayout \<lparr>width = Finite 600, height = Finite 800\<rparr> 1)
       * columns (getBestLayout \<lparr>width = Finite 600, height = Finite 800\<rparr> 1) \<ge> 1"
proof -
  have "(2::real) powi (- 500) \<le> 2 powi 0" by (rule power_int_increasing) simp_all
  then have "(2::real) powi (- 500) \<le> 600" "(2::real) powi (- 500) \<le> 800" by simp_all
  then show ?thesis
    using getBestLayout_holds_all_items [of 1 "\<lparr>width = Finite 600, height = Finite 800\<rparr>"]
    by simp
qed

text \<open>
  C1, as it is written, fails for small viewports: with the width \<open>3 * 2 powi (- 540)\<close> and
  the height \<open>2 powi (- 538)\<close>, both positive, the only grid for one item has a tile of
  these sizes, and their product \<open>3 * 2 powi (- 1078)\<close> rounds to 0. No area is above 0,
  and the initial layout, without any cell, is returned.
\<close>

lemma tiny_width: "fl (3 * 2 powi (- 540)) = Finite (3 * 2 powi (- 540))"
  by (rule fl_exact [of _ 3 "- 540"]) simp_all

lemma tiny_height: "fl (2 powi (- 538)) = Finite (2 powi (- 538))"
  by (rule fl_exact [of _ 1 "- 538"]) simp_all

lemma tiny_width_800: "fl (3 * 2 powi (- 540) * 800) = Finite (3 * 2 powi (- 540) * 800)"
  by (rule fl_exact [of _ 2400 "- 540"]) simp_all

lemma tiny_tile_height: "fl (3 * 2 powi (- 540) * 800 / 600) = Finite (2 powi (- 538))"
  using tiny_height by simp

lemma tiny_area: "fl (3 * 2 powi (- 540) * 2 powi (- 538)) = Finite 0"
  using fl_underflow [of "3 * 2 powi (- 540) * 2 powi (- 538)"] by (simp add: zero_def)

lemma tiny_tile:
  "getWaffleSize \<lparr>width = Finite (3 * 2 powi (- 540)), height = Finite (2 powi (- 538))\<rparr>
     = \<lparr>width = Finite (3 * 2 powi (- 540)), height = Finite (2 powi (- 538))\<rparr>"
proof -
  have m: "js_mul (Finite (3 * 2 powi (- 540))) (Finite 800) = Finite (3 * 2 powi (- 540) * 800)"
    by (simp only: tiny_width_800 [symmetric]) (rule js_mul_finite, simp_all)
  have d: "js_div (Finite (3 * 2 powi (- 540) * 800)) (Finite 600) = Finite (2 powi (- 538))"
    by (simp only: tiny_tile_height [symmetric]) (rule js_div_finite, simp_all)
  show ?thesis
    by (simp only: getWaffleSize_def IViewport.simps m d) (simp add: js_le_def)
qed

lemma tiny_calculateArea:
  "totalArea (calculateArea
      \<lparr>width = Finite (3 * 2 powi (- 540)), height = Finite (2 powi (- 538))\<rparr> 1 1 1) = Finite 0"
proof -
  have cw: "js_div (Finite (3 * 2 powi (- 540))) (ofCount 1) = Finite (3 * 2 powi (- 540))"
    using tiny_width by (simp add: ofCount_def js_div_finite)
  have ch: "js_div (Finite (2 powi (- 538))) (ofCount 1) = Finite (2 powi (- 538))"
    using tiny_height by (simp add: ofCount_def js_div_finite)
  have a: "js_mul (Finite (3 * 2 powi (- 540))) (Finite (2 powi (- 538))) = Finite 0"
    by (simp only: tiny_area [symmetric]) (rule js_mul_finite, simp_all)
  show ?thesis
    by (simp only: calculateArea_def Let_def IViewport.simps WaffleChartLayout.simps cw ch
          tiny_tile a)
      (simp add: ofCount_def)
qed

lemma tiny_getBestLayout:
  "getBestLayout \<lparr>width = Finite (3 * 2 powi (- 540)), height = Finite (2 powi (- 538))\<rparr> 1
     = \<lparr>rows = 0, columns = 0, totalArea = Finite 0\<rparr>"
proof -
  have "getBestLayout \<lparr>width = Finite (3 * 2 powi (- 540)), height = Finite (2 powi (- 538))\<rparr> 1
          = initialLayout"
  proof (rule getBestLayout_keeps)
    fix i j :: nat
    assume "1 \<le> i" "i \<le> 1" "1 \<le> j" "j \<le> 1"
    then have "i = 1" "j = 1" by simp_all
    then show "\<not> js_gt (totalArea (calculateArea
        \<lparr>width = Finite (3 * 2 powi (- 540)), height = Finite (2 powi (- 538))\<rparr> 1 i j)) (Finite 0)"
      by (simp only: tiny_calculateArea) simp
  qed
  then show ?thesis by (simp add: initialLayout_def)
qed

theorem getBestLayout_tiny_viewport:
  "js_gt (Finite (3 * 2 powi (- 540))) (Finite 0) \<and> js_gt (Finite (2 powi (- 538))) (Finite 0)
   \<and> getBestLayout \<lparr>width = Finite (3 * 2 powi (- 540)), height = Finite (2 powi (- 538))\<rparr> 1
       = \<lparr>rows = 0, columns = 0, totalArea = Finite 0\<rparr>
   \<and> rows (getBestLayout
        \<lparr>width = Finite (3 * 2 powi (- 540)), height = Finite (2 powi (- 538))\<rparr> 1)
       * columns (getBestLayout
        \<lparr>width = Finite (3 * 2 powi (- 540)), height = Finite (2 powi (- 538))\<rparr> 1) < 1"
  by (simp only: tiny_getBestLayout) simp

text \<open>Multiplying by one constant and dividing by another, with the two roundings.\<close>

lemma scale_error:
  assumes "2 powi (- 1000) \<le> x" "x \<le> 2 powi 1000" "1 \<le> c" "c \<le> 1024" "1 \<le> d" "d \<le> 1024"
  shows "\<exists>v. js_div (js_mul (Finite x) (Finite c)) (Finite d) = Finite v
           \<and> \<bar>v - x * c / d\<bar> \<le> x * c / d * 2 powi (- 51)"
proof -
  have x: "0 < x" using assms(1) by (rule powi_le_pos)
  define p where "p = x * c"
  have p: "0 < p" using x assms(3) by (simp add: p_def)
  have "x * 1 \<le> x * c" using x assms(3) by (intro mult_left_mono) simp_all
  then have "x \<le> p" by (simp add: p_def)
  then have plo: "2 powi (- 1000) \<le> p" using assms(1) by linarith
  have "p \<le> 2 powi 1000 * 1024"
    unfolding p_def using x assms(2,3,4) by (intro mult_mono) simp_all
  moreover have "(2::real) powi 1000 * 1024 = 2 powi 1010" using powi_add2 [of 1000 10] by simp
  ultimately have phi: "p \<le> 2 powi 1010" by linarith
  have absp: "\<bar>p\<bar> = p" using p by simp
  have "(2::real) powi (- 1022) \<le> 2 powi (- 1000)" "(2::real) powi 1010 \<le> 2 powi 1023"
    by (rule powi_mono, simp)+
  then have "2 powi (- 1022) \<le> \<bar>p\<bar>" "\<bar>p\<bar> \<le> 2 powi 1023"
    unfolding absp using plo phi by linarith+
  then have flp: "fl p = Finite (rounded p)" and "\<bar>rounded p - p\<bar> \<le> \<bar>p\<bar> / 2 ^ 53"
    by (rule fl_normal)+
  then have errp: "\<bar>rounded p - p\<bar> \<le> p / 2 ^ 53" by (simp only: absp)
  define r where "r = rounded p"
  have "p / 2 ^ 53 \<le> p / 2" using p by (simp add: field_simps)
  then have rlo: "p / 2 \<le> r" and rhi: "r \<le> 2 * p" using errp p unfolding r_def by linarith+
  have r: "0 < r" using rlo p by linarith
  have mul: "js_mul (Finite x) (Finite c) = Finite r"
    using x assms(3) flp by (simp add: js_mul_finite p_def r_def)
  define q where "q = r / d"
  have d: "0 < d" using assms(5) by simp
  have q: "0 < q" using r d by (simp add: q_def)
  have k1: "(2::real) powi (- 1011) * 2048 = 2 powi (- 1000)"
    using powi_add2 [of "- 1011" 11] by simp
  have k2: "r / 1024 \<le> q"
    unfolding q_def using r d assms(6) by (intro divide_left_mono) simp_all
  have qlo: "2 powi (- 1011) \<le> q" using plo rlo k1 k2 by linarith
  have "r / d \<le> r / 1" using r d assms(5) by (intro divide_left_mono) simp_all
  then have k4: "q \<le> r" by (simp add: q_def)
  have k3: "2 * (2::real) powi 1010 = 2 powi 1011" using powi_add2 [of 1 1010] by simp
  have qhi: "q \<le> 2 powi 1011" using k4 rhi phi k3 by linarith
  have absq: "\<bar>q\<bar> = q" using q by simp
  have "(2::real) powi (- 1022) \<le> 2 powi (- 1011)" "(2::real) powi 1011 \<le> 2 powi 1023"
    by (rule powi_mono, simp)+
  then have "2 powi (- 1022) \<le> \<bar>q\<bar>" "\<bar>q\<bar> \<le> 2 powi 1023"
    unfolding absq using qlo qhi by linarith+
  then have flq: "fl q = Finite (rounded q)" and "\<bar>rounded q - q\<bar> \<le> \<bar>q\<bar> / 2 ^ 53"
    by (rule fl_normal)+
  then have errq: "\<bar>rounded q - q\<bar> \<le> q / 2 ^ 53" by (simp only: absq)
  have dv: "js_div (Finite r) (Finite d) = Finite (rounded q)"
    using r d flq by (simp add: js_div_finite q_def)
  define s where "s = p / d"
  have s: "0 < s" using p d by (simp add: s_def)
  have "q - s = (r - p) / d" by (simp add: q_def s_def diff_divide_distrib)
  then have "\<bar>q - s\<bar> = \<bar>r - p\<bar> / d" using d by simp
  also have "\<dots> \<le> (p / 2 ^ 53) / d"
    using errp d unfolding r_def by (intro divide_right_mono) simp_all
  also have "\<dots> = s / 2 ^ 53" by (simp add: s_def)
  finally have e1: "\<bar>q - s\<bar> \<le> s / 2 ^ 53" .
  have "r / d \<le> 2 * p / d" using rhi d by (intro divide_right_mono) simp_all
  then have "q \<le> 2 * s" by (simp add: q_def s_def)
  then have "q / 2 ^ 53 \<le> 2 * s / 2 ^ 53" by (intro divide_right_mono) simp_all
  then have e2: "\<bar>rounded q - q\<bar> \<le> 2 * s / 2 ^ 53" using errq by linarith
  have "\<bar>rounded q - s\<bar> \<le> s / 2 ^ 53 + 2 * s / 2 ^ 53" using e1 e2 by linarith
  also have "\<dots> \<le> s * 2 powi (- 51)" using s by (simp add: field_simps)
  finally have "\<bar>rounded q - x * c / d\<bar> \<le> x * c / d * 2 powi (- 51)"
    by (simp only: s_def p_def)
  moreover have "js_div (js_mul (Finite x) (Finite c)) (Finite d) = Finite (rounded q)"
    by (simp only: mul dv)
  ultimately show ?thesis by (intro exI [of _ "rounded q"] conjI)
qed

lemma scaled_width_bound:
  fixes x y vt vu :: real
  assumes eu: "\<bar>vu - y * 600 / 800\<bar> \<le> y * 600 / 800 / 2251799813685248"
    and et: "\<bar>vt - x * 800 / 600\<bar> \<le> x * 800 / 600 / 2251799813685248"
    and gt: "y < vt" and x: "0 < x"
  shows "vu \<le> x * (1 + 1 / 562949953421312)"
proof -
  have a: "vu \<le> y * 600 / 800 + y * 600 / 800 / 2251799813685248" using eu by linarith
  have c: "y \<le> x * 800 / 600 + x * 800 / 600 / 2251799813685248" using et gt by linarith
  show ?thesis using a c x by (simp add: field_simps)
qed

lemma scaled_positive:
  fixes s vt :: real
  assumes "\<bar>vt - s\<bar> \<le> s / 2251799813685248" "0 < s"
  shows "0 < vt"
  using assms by linarith

lemma width_bound_ratio:
  fixes x vt :: real
  assumes et: "\<bar>vt - x * 800 / 600\<bar> \<le> x * 800 / 600 / 2251799813685248" and x: "0 < x"
  shows "\<bar>x * 800 - vt * 600\<bar> \<le> vt * 600 / 1125899906842624"
proof -
  have a: "vt \<le> x * 800 / 600 + x * 800 / 600 / 2251799813685248"
    and b: "x * 800 / 600 - x * 800 / 600 / 2251799813685248 \<le> vt" using et by linarith+
  have p: "x * 800 - vt * 600 \<le> vt * 600 / 1125899906842624"
    using a b x by (simp add: field_simps)
  have q: "vt * 600 - x * 800 \<le> vt * 600 / 1125899906842624"
    using a b x by (simp add: field_simps)
  show ?thesis using p q by linarith
qed

lemma height_bound_ratio:
  fixes y vu :: real
  assumes eu: "\<bar>vu - y * 600 / 800\<bar> \<le> y * 600 / 800 / 2251799813685248" and y: "0 < y"
  shows "\<bar>vu * 800 - y * 600\<bar> \<le> y * 600 / 1125899906842624"
proof -
  have a: "vu \<le> y * 600 / 800 + y * 600 / 800 / 2251799813685248"
    and b: "y * 600 / 800 - y * 600 / 800 / 2251799813685248 \<le> vu" using eu by linarith+
  have p: "vu * 800 - y * 600 \<le> y * 600 / 1125899906842624"
    using a b y by (simp add: field_simps)
  have q: "y * 600 - vu * 800 \<le> y * 600 / 1125899906842624"
    using a b y by (simp add: field_simps)
  show ?thesis using p q by linarith
qed

text \<open>
  C6, as the code has it. For a cell of positive width \<open>w\<close> and positive height \<open>h\<close>, let
  \<open>t\<close> be the double that \<^verbatim>\<open>w * 800 / 600\<close> computes and \<open>u\<close> the double that
  \<^verbatim>\<open>h * 600 / 800\<close> computes. The tile is bound by the width, \<open>(w, t)\<close>, exactly when
  \<open>t \<le> h\<close>, and by the height, \<open>(u, h)\<close>, otherwise. Its height is never above \<open>h\<close>, and
  its width is \<open>w\<close> when it is bound by the width. For sizes between \<open>2 powi (- 1000)\<close> and
  \<open>2 powi 1000\<close> the sizes of the tile are positive and finite, the width is at most
  \<open>w * (1 + 2 powi (- 49))\<close>, and 800 times the width differs from 600 times the height by at
  most the fraction \<open>2 powi (- 50)\<close> of the latter.
\<close>

theorem getWaffleSize_fits_cell:
  assumes "js_gt w (Finite 0)" "js_gt h (Finite 0)"
    and "t = js_div (js_mul w (Finite 800)) (Finite 600)"
    and "u = js_div (js_mul h (Finite 600)) (Finite 800)"
  shows "getWaffleSize \<lparr>width = w, height = h\<rparr>
           = (if js_le t h then \<lparr>width = w, height = t\<rparr> else \<lparr>width = u, height = h\<rparr>)
       \<and> js_le (height (getWaffleSize \<lparr>width = w, height = h\<rparr>)) h
       \<and> (js_le t h \<longrightarrow> width (getWaffleSize \<lparr>width = w, height = h\<rparr>) = w)
       \<and> (\<forall>x y. w = Finite x \<and> h = Finite y
              \<and> 2 powi (- 1000) \<le> x \<and> x \<le> 2 powi 1000
              \<and> 2 powi (- 1000) \<le> y \<and> y \<le> 2 powi 1000 \<longrightarrow>
            (\<exists>a b. getWaffleSize \<lparr>width = w, height = h\<rparr> = \<lparr>width = Finite a, height = Finite b\<rparr>
               \<and> 0 < a \<and> a \<le> x * (1 + 2 powi (- 49)) \<and> 0 < b \<and> b \<le> y
               \<and> \<bar>a * 800 - b * 600\<bar> \<le> b * 600 * 2 powi (- 50)))"
proof -
  have sel: "getWaffleSize \<lparr>width = w, height = h\<rparr>
           = (if js_le t h then \<lparr>width = w, height = t\<rparr> else \<lparr>width = u, height = h\<rparr>)"
    by (simp add: getWaffleSize_def assms(3,4))
  have "h \<noteq> NaN" using assms(2) by (rule js_gt_not_NaN)
  then have "js_le h h" by (simp add: js_le_def js_gt_irrefl)
  then have hle: "js_le (height (getWaffleSize \<lparr>width = w, height = h\<rparr>)) h"
    by (simp add: sel)
  have wid: "js_le t h \<longrightarrow> width (getWaffleSize \<lparr>width = w, height = h\<rparr>) = w"
    by (simp add: sel)
  have quant: "\<exists>a b. getWaffleSize \<lparr>width = w, height = h\<rparr> = \<lparr>width = Finite a, height = Finite b\<rparr>
               \<and> 0 < a \<and> a \<le> x * (1 + 2 powi (- 49)) \<and> 0 < b \<and> b \<le> y
               \<and> \<bar>a * 800 - b * 600\<bar> \<le> b * 600 * 2 powi (- 50)"
    if w: "w = Finite x" and h: "h = Finite y"
      and xr: "2 powi (- 1000) \<le> x" "x \<le> 2 powi 1000"
      and yr: "2 powi (- 1000) \<le> y" "y \<le> 2 powi 1000" for x y
  proof -
    have x: "0 < x" using xr(1) by (rule powi_le_pos)
    have y: "0 < y" using yr(1) by (rule powi_le_pos)
    obtain vt where vt: "t = Finite vt" "\<bar>vt - x * 800 / 600\<bar> \<le> x * 800 / 600 * 2 powi (- 51)"
      using scale_error [OF xr, of 800 600] unfolding assms(3) w by auto
    obtain vu where vu: "u = Finite vu" "\<bar>vu - y * 600 / 800\<bar> \<le> y * 600 / 800 * 2 powi (- 51)"
      using scale_error [OF yr, of 600 800] unfolding assms(4) h by auto
    have et: "\<bar>vt - x * 800 / 600\<bar> \<le> x * 800 / 600 / 2251799813685248"
      using vt(2) by simp
    have eu: "\<bar>vu - y * 600 / 800\<bar> \<le> y * 600 / 800 / 2251799813685248"
      using vu(2) by simp
    show ?thesis
    proof (cases "js_le t h")
      case True
      then have le: "vt \<le> y" by (simp add: js_le_def vt(1) h)
      have tile: "getWaffleSize \<lparr>width = w, height = h\<rparr> = \<lparr>width = Finite x, height = Finite vt\<rparr>"
        unfolding sel using True by (simp add: w vt(1))
      have "0 < vt" using et x by (intro scaled_positive [of vt "x * 800 / 600"]) simp_all
      moreover have "x \<le> x * (1 + 2 powi (- 49))" using x by simp
      moreover have "\<bar>x * 800 - vt * 600\<bar> \<le> vt * 600 / 1125899906842624"
        using et x by (rule width_bound_ratio)
      then have "\<bar>x * 800 - vt * 600\<bar> \<le> vt * 600 * 2 powi (- 50)" by simp
      ultimately show ?thesis using tile x le by blast
    next
      case False
      then have gt: "y < vt" by (simp add: js_le_def vt(1) h)
      have tile: "getWaffleSize \<lparr>width = w, height = h\<rparr> = \<lparr>width = Finite vu, height = Finite y\<rparr>"
        unfolding sel using False by (simp add: h vu(1))
      have "0 < vu" using eu y by (intro scaled_positive [of vu "y * 600 / 800"]) simp_all
      moreover have "vu \<le> x * (1 + 1 / 562949953421312)"
        using eu et gt x by (rule scaled_width_bound)
      then have "vu \<le> x * (1 + 2 powi (- 49))" by simp
      moreover have "\<bar>vu * 800 - y * 600\<bar> \<le> y * 600 / 1125899906842624"
        using eu y by (rule height_bound_ratio)
      then have "\<bar>vu * 800 - y * 600\<bar> \<le> y * 600 * 2 powi (- 50)" by simp
      ultimately show ?thesis using tile y by blast
    qed
  qed
  show ?thesis using sel hle wid quant by blast
qed

theorem getWaffleSize_fits_cell_witness:
  "js_gt (Finite 300) (Finite 0) \<and> js_gt (Finite 500) (Finite 0)
   \<and> js_le (js_div (js_mul (Finite 300) (Finite 800)) (Finite 600)) (Finite 500)
   \<and> getWaffleSize \<lparr>width = Finite 300, height = Finite 500\<rparr>
       = \<lparr>width = Finite 300, height = Finite 400\<rparr>
   \<and> js_le (height (getWaffleSize \<lparr>width = Finite 300, height = Finite 500\<rparr>)) (Finite 500)
   \<and> width (getWaffleSize \<lparr>width = Finite 300, height = Finite 500\<rparr>) = Finite 300
   \<and> 2 powi (- 1000) \<le> (300::real) \<and> (300::real) \<le> 2 powi 1000
   \<and> 2 powi (- 1000) \<le> (500::real) \<and> (500::real) \<le> 2 powi 1000
   \<and> (\<exists>a b. getWaffleSize \<lparr>width = Finite 300, height = Finite 500\<rparr>
                = \<lparr>width = Finite a, height = Finite b\<rparr>
          \<and> 0 < a \<and> a \<le> 300 * (1 + 2 powi (- 49)) \<and> 0 < b \<and> b \<le> 500
          \<and> \<bar>a * 800 - b * 600\<bar> \<le> b * 600 * 2 powi (- 50))"
proof -
  have t: "js_div (js_mul (Finite 300) (Finite 800)) (Finite 600) = Finite 400"
    by (simp add: js_mul_finite js_div_finite)
  have g: "js_gt (Finite 300) (Finite 0)" "js_gt (Finite 500) (Finite 0)" by simp_all
  have "(2::real) powi (- 1000) \<le> 2 powi 0" "(2::real) powi 9 \<le> 2 powi 1000"
    by (rule powi_mono, simp)+
  moreover have "(2::real) powi 0 = 1" "(2::real) powi 9 = 512" by simp_all
  ultimately have r: "2 powi (- 1000) \<le> (300::real)" "(300::real) \<le> 2 powi 1000"
      "2 powi (- 1000) \<le> (500::real)" "(500::real) \<le> 2 powi 1000"
    by linarith+
  note fits = getWaffleSize_fits_cell [OF g refl refl]
  have le: "js_le (js_div (js_mul (Finite 300) (Finite 800)) (Finite 600)) (Finite 500)"
    by (simp only: t) (simp add: js_le_def)
  have tile: "getWaffleSize \<lparr>width = Finite 300, height = Finite 500\<rparr>
       = \<lparr>width = Finite 300, height = Finite 400\<rparr>"
    using fits [THEN conjunct1] le by (simp only: t if_True)
  have hgt: "js_le (height (getWaffleSize \<lparr>width = Finite 300, height = Finite 500\<rparr>)) (Finite 500)"
    using fits by blast
  have wid: "width (getWaffleSize \<lparr>width = Finite 300, height = Finite 500\<rparr>) = Finite 300"
    using fits le by blast
  have ex: "\<exists>a b. getWaffleSize \<lparr>width = Finite 300, height = Finite 500\<rparr>
                = \<lparr>width = Finite a, height = Finite b\<rparr>
          \<and> 0 < a \<and> a \<le> 300 * (1 + 2 powi (- 49)) \<and> 0 < b \<and> b \<le> 500
          \<and> \<bar>a * 800 - b * 600\<bar> \<le> b * 600 * 2 powi (- 50)"
    using fits r by blast
  show ?thesis using g le tile hgt wid r ex by blast
qed

text \<open>
  C6, as it is written, fails: the width of the tile can be above the width of the cell, and
  the ratio is not exactly 600 to 800. For the cell of width \<open>5817149518686891 * 2 powi (- 49)\<close>
  (the double nearest to 31 / 3) and height \<open>7756199358249188 * 2 powi (- 49)\<close> (the double
  nearest to 124 / 9), \<^verbatim>\<open>w * 800 / 600\<close> is the double just above the height, so the
  tile is bound by the height, and \<^verbatim>\<open>h * 600 / 800\<close> is the double just above the width.
\<close>

lemma near_w800:
  "fl (5817149518686891 * 2 powi (- 49) * 800) = Finite (4544648061474134 * 2 powi (- 39))"
proof (rule fl_eqI [of 13 _ "- 39" 4544648061474134])
  show "roundHalfEven (5817149518686891 * 2 powi (- 49) * 800 / 2 powi (- 39)) = 4544648061474134"
    by (rule roundHalfEven_eqI) simp
qed simp_all

lemma near_t:
  "fl (4544648061474134 * 2 powi (- 39) / 600) = Finite (7756199358249189 * 2 powi (- 49))"
proof (rule fl_eqI [of 3 _ "- 49" 7756199358249189])
  show "roundHalfEven (4544648061474134 * 2 powi (- 39) / 600 / 2 powi (- 49)) = 7756199358249189"
    by (rule roundHalfEven_eqI) simp
qed simp_all

lemma near_h600:
  "fl (7756199358249188 * 2 powi (- 49) * 600) = Finite (4544648061474134 * 2 powi (- 39))"
proof (rule fl_eqI [of 13 _ "- 39" 4544648061474134])
  show "roundHalfEven (7756199358249188 * 2 powi (- 49) * 600 / 2 powi (- 39)) = 4544648061474134"
    by (rule roundHalfEven_eqI) simp
qed simp_all

lemma near_u:
  "fl (4544648061474134 * 2 powi (- 39) / 800) = Finite (5817149518686892 * 2 powi (- 49))"
proof (rule fl_eqI [of 3 _ "- 49" 5817149518686892])
  show "roundHalfEven (4544648061474134 * 2 powi (- 39) / 800 / 2 powi (- 49)) = 5817149518686892"
    by (rule roundHalfEven_eqI) simp
qed simp_all

lemma near_tile:
  "getWaffleSize \<lparr>width = Finite (5817149518686891 * 2 powi (- 49)),
                  height = Finite (7756199358249188 * 2 powi (- 49))\<rparr>
     = \<lparr>width = Finite (5817149518686892 * 2 powi (- 49)),
        height = Finite (7756199358249188 * 2 powi (- 49))\<rparr>"
proof -
  have m1: "js_mul (Finite (5817149518686891 * 2 powi (- 49))) (Finite 800)
              = Finite (4544648061474134 * 2 powi (- 39))"
    by (simp only: near_w800 [symmetric]) (rule js_mul_finite, simp_all)
  have d1: "js_div (Finite (4544648061474134 * 2 powi (- 39))) (Finite 600)
              = Finite (7756199358249189 * 2 powi (- 49))"
    by (simp only: near_t [symmetric]) (rule js_div_finite, simp_all)
  have m2: "js_mul (Finite (7756199358249188 * 2 powi (- 49))) (Finite 600)
              = Finite (4544648061474134 * 2 powi (- 39))"
    by (simp only: near_h600 [symmetric]) (rule js_mul_finite, simp_all)
  have d2: "js_div (Finite (4544648061474134 * 2 powi (- 39))) (Finite 800)
              = Finite (5817149518686892 * 2 powi (- 49))"
    by (simp only: near_u [symmetric]) (rule js_div_finite, simp_all)
  show ?thesis
    by (simp only: getWaffleSize_def IViewport.simps m1 d1 m2 d2) (simp add: js_le_def)
qed

theorem getWaffleSize_exceeds_cell:
  "js_gt (Finite (5817149518686891 * 2 powi (- 49))) (Finite 0)
   \<and> js_gt (Finite (7756199358249188 * 2 powi (- 49))) (Finite 0)
   \<and> getWaffleSize \<lparr>width = Finite (5817149518686891 * 2 powi (- 49)),
                    height = Finite (7756199358249188 * 2 powi (- 49))\<rparr>
       = \<lparr>width = Finite (5817149518686892 * 2 powi (- 49)),
          height = Finite (7756199358249188 * 2 powi (- 49))\<rparr>
   \<and> js_gt (width (getWaffleSize \<lparr>width = Finite (5817149518686891 * 2 powi (- 49)),
                                   height = Finite (7756199358249188 * 2 powi (- 49))\<rparr>))
        (Finite (5817149518686891 * 2 powi (- 49)))
   \<and> 5817149518686892 * 2 powi (- 49) / (7756199358249188 * 2 powi (- 49)) \<noteq> (600 / 800 :: real)"
  by (simp only: near_tile) simp

text \<open>A viewport without area: the sizes are 0 or above, and one of them is a zero.\<close>

lemma js_le_zero_cases:
  "js_le (Finite 0) a \<Longrightarrow> (\<exists>x. a = Finite x \<and> 0 \<le> x) \<or> a = NegZero \<or> a = PosInfinity"
  by (cases a) (simp_all add: js_le_def)

lemma js_div_keeps_sign:
  assumes "js_le (Finite 0) a" "0 < c"
  shows "js_le (Finite 0) (js_div a (Finite c))"
    and "is_zero a \<Longrightarrow> is_zero (js_div a (Finite c))"
proof -
  show "js_le (Finite 0) (js_div a (Finite c))"
  proof (cases a)
    case (Finite x)
    then have "0 \<le> x" using assms(1) by (simp add: js_le_def)
    then have "nonneg (js_div a (Finite c))"
      using assms(2) Finite by (intro js_div_nonneg) simp_all
    then show ?thesis by (rule js_le_zero_nonneg)
  next
    case NegZero
    then show ?thesis
      using assms(2) by (simp add: js_div_def is_infinite_def is_zero_def zero_def js_le_def)
  next
    case PosInfinity
    then show ?thesis
      using assms(2) by (simp add: js_div_def is_infinite_def infinity_def js_le_def)
  qed (use assms(1) in \<open>simp_all add: js_le_def\<close>)
  show "is_zero (js_div a (Finite c))" if "is_zero a"
    using that assms(2) by (auto simp: js_div_def is_infinite_def is_zero_def zero_def)
qed

lemma zero_scaled:
  "is_zero a \<Longrightarrow> 0 < c \<Longrightarrow> 0 < d \<Longrightarrow> js_div (js_mul a (Finite c)) (Finite d) = a"
  by (auto simp: js_div_def js_mul_def is_infinite_def is_zero_def zero_def)

lemma zero_squared: "is_zero a \<Longrightarrow> js_mul a a = Finite 0"
  by (auto simp: js_mul_def is_infinite_def is_zero_def zero_def)

lemma zero_below: "is_zero a \<Longrightarrow> js_le (Finite 0) b \<Longrightarrow> js_le a b"
  by (cases b) (auto simp: is_zero_def js_le_def)

lemma getWaffleSize_area_zero:
  assumes "js_le (Finite 0) (width c)" "js_le (Finite 0) (height c)"
    and "is_zero (width c) \<or> is_zero (height c)"
  shows "js_mul (width (getWaffleSize c)) (height (getWaffleSize c)) = Finite 0"
proof (cases "is_zero (width c)")
  case True
  have t: "js_div (js_mul (width c) (Finite 800)) (Finite 600) = width c"
    using True by (intro zero_scaled) simp_all
  have "js_le (width c) (height c)" using True assms(2) by (rule zero_below)
  then show ?thesis using True by (simp add: getWaffleSize_def t zero_squared)
next
  case False
  then have zh: "is_zero (height c)" using assms(3) by simp
  have u: "js_div (js_mul (height c) (Finite 600)) (Finite 800) = height c"
    using zh by (intro zero_scaled) simp_all
  let ?t = "js_div (js_mul (width c) (Finite 800)) (Finite 600)"
  show ?thesis
  proof (cases "js_le ?t (height c)")
    case le: True
    from js_le_zero_cases [OF assms(1)] False
    consider x where "width c = Finite x" "0 < x" | "width c = PosInfinity"
      by (auto simp: is_zero_def less_le)
    then show ?thesis
    proof cases
      case 1
      have "nonneg (js_mul (width c) (Finite 800))"
        using 1 by (intro js_mul_nonneg) simp_all
      then have nn: "nonneg ?t" by (intro js_div_nonneg) simp_all
      have "js_le ?t (Finite 0)"
        using le zh nn by (cases ?t) (auto simp: is_zero_def js_le_def)
      with nn have "?t = Finite 0" by (rule nonneg_le_zero)
      then show ?thesis using le 1 by (simp add: getWaffleSize_def)
    next
      case 2
      then have "?t = PosInfinity"
        by (simp add: js_mul_def js_div_def is_infinite_def is_zero_def infinity_def)
      then show ?thesis using le zh by (auto simp: js_le_def is_zero_def)
    qed
  next
    case gt: False
    then show ?thesis using zh by (simp add: getWaffleSize_def u zero_squared)
  qed
qed

lemma calculateArea_zero:
  assumes "js_le (Finite 0) (width v)" "js_le (Finite 0) (height v)"
    and "is_zero (width v) \<or> is_zero (height v)" and "1 \<le> i" "1 \<le> j"
  shows "totalArea (calculateArea v cnt i j) = Finite 0"
proof -
  let ?cell = "\<lparr>width = js_div (width v) (ofCount j), height = js_div (height v) (ofCount i)\<rparr>"
  have ri: "0 < real i" and rj: "0 < real j" using assms(4,5) by simp_all
  have "js_le (Finite 0) (width ?cell)" "js_le (Finite 0) (height ?cell)"
    using assms(1,2) ri rj by (simp_all add: ofCount_def js_div_keeps_sign(1))
  moreover have "is_zero (width ?cell) \<or> is_zero (height ?cell)"
    using assms(1,2,3) ri rj by (auto simp: ofCount_def js_div_keeps_sign(2))
  ultimately have "js_mul (width (getWaffleSize ?cell)) (height (getWaffleSize ?cell)) = Finite 0"
    by (rule getWaffleSize_area_zero)
  then show ?thesis by (simp add: calculateArea_def Let_def ofCount_def)
qed

text \<open>
  C10, as the code has it. For every item count and every viewport whose sizes are 0 or
  above (neither is negative or NaN) and whose width or height is a zero, every grid with
  at least one row and one column has the computed area 0, so none replaces the initial
  layout: \<^verbatim>\<open>getBestLayout\<close> returns \<open>{rows: 0, columns: 0, totalArea: 0}\<close>, which for
  an item count above 0 has fewer cells than items.
\<close>

theorem getBestLayout_zero_viewport:
  assumes "js_le (Finite 0) (width viewport)" "js_le (Finite 0) (height viewport)"
    and "is_zero (width viewport) \<or> is_zero (height viewport)"
  shows "getBestLayout viewport cnt = \<lparr>rows = 0, columns = 0, totalArea = Finite 0\<rparr>
       \<and> (\<forall>i j. 1 \<le> i \<and> 1 \<le> j \<longrightarrow> totalArea (calculateArea viewport cnt i j) = Finite 0)
       \<and> (0 < cnt \<longrightarrow>
            rows (getBestLayout viewport cnt) * columns (getBestLayout viewport cnt) < cnt)"
proof -
  have zero: "totalArea (calculateArea viewport cnt i j) = Finite 0" if "1 \<le> i" "1 \<le> j" for i j
    using assms that by (rule calculateArea_zero)
  have "getBestLayout viewport cnt = initialLayout"
    by (rule getBestLayout_keeps) (simp add: zero)
  then have eq: "getBestLayout viewport cnt = \<lparr>rows = 0, columns = 0, totalArea = Finite 0\<rparr>"
    by (simp add: initialLayout_def)
  show ?thesis using zero by (simp add: eq)
qed

theorem getBestLayout_zero_viewport_witness:
  "js_le (Finite 0) (width \<lparr>width = Finite 0, height = Finite 500\<rparr>)
   \<and> js_le (Finite 0) (height \<lparr>width = Finite 0, height = Finite 500\<rparr>)
   \<and> is_zero (width \<lparr>width = Finite 0, height = Finite 500\<rparr>)
   \<and> getBestLayout \<lparr>width = Finite 0, height = Finite 500\<rparr> 5
       = \<lparr>rows = 0, columns = 0, totalArea = Finite 0\<rparr>
   \<and> totalArea (calculateArea \<lparr>width = Finite 0, height = Finite 500\<rparr> 5 1 5) = Finite 0
   \<and> rows (getBestLayout \<lparr>width = Finite 0, height = Finite 500\<rparr> 5)
       * columns (getBestLayout \<lparr>width = Finite 0, height = Finite 500\<rparr> 5) < 5"
  using getBestLayout_zero_viewport [of "\<lparr>width = Finite 0, height = Finite 500\<rparr>" 5]
  by (simp add: js_le_def is_zero_def)

text \<open>
  C10, as it is written, fails for a viewport with a negative size: with the width 0 and the
  height \<open>-8\<close> the cell of the only grid for one item is 0 by \<open>-8\<close>; 0 is not at most
  \<open>-8\<close>, so the tile has the height \<open>-8\<close> and the width \<open>-8 * 600 / 800 = -6\<close>, and
  its area 48 replaces the initial area 0.
\<close>

lemma negative_calculateArea:
  "calculateArea \<lparr>width = Finite 0, height = Finite (- 8)\<rparr> 1 1 1
     = \<lparr>rows = 1, columns = 1, totalArea = Finite 48\<rparr>"
proof -
  have ch: "js_div (Finite (- 8)) (Finite 1) = Finite (- 8)" by (simp add: js_div_finite)
  have m: "js_mul (Finite (- 8)) (Finite 600) = Finite (- 4800)" by (simp add: js_mul_finite)
  have d: "js_div (Finite (- 4800)) (Finite 800) = Finite (- 6)" by (simp add: js_div_finite)
  have a: "js_mul (Finite (- 6)) (Finite (- 8)) = Finite 48" by (simp add: js_mul_finite)
  have b: "js_mul (Finite 48) (Finite 1) = Finite 48" by (simp add: js_mul_finite)
  show ?thesis
    by (simp add: calculateArea_def getWaffleSize_def ofCount_def ch m d a b js_le_def)
qed

theorem getBestLayout_negative_height:
  "is_zero (width \<lparr>width = Finite 0, height = Finite (- 8)\<rparr>)
   \<and> getBestLayout \<lparr>width = Finite 0, height = Finite (- 8)\<rparr> 1
       = \<lparr>rows = 1, columns = 1, totalArea = Finite 48\<rparr>"
proof -
  have "[1..<Suc 1] = [1]" by (simp add: upt_rec)
  then show ?thesis
    using negative_calculateArea
    by (simp add: getBestLayout_def layoutStep_def initialLayout_def is_zero_def Let_def)
qed

section \<open>Properties of the path sanitizer\<close>

lemma upper_class: "map toUpperCase invalidPathChars = ''BDFGIJKNOPRUWXY''"
  by (simp add: invalidPathChars_def toUpperCase_def)

lemma inCharClass_iff:
  "inCharClass c \<longleftrightarrow> c \<in> set ''bdfgijknopruwxyBDFGIJKNOPRUWXY''"
  unfolding inCharClass_def upper_class
  by (simp add: toUpperCase_def) 

lemma regex_test_iff: "regex_test s \<longleftrightarrow> (\<exists>c \<in> set s. inCharClass c)"
  by (induction s) simp_all

text \<open>
  C9. The label of a series group is replaced by the null path exactly when it contains one
  of the letters \<open>b d f g i j k n o p r u w x y\<close>, in either case; otherwise it is returned
  unchanged. The function is total: no label makes it fail.
\<close>

theorem sanitizePathD_disallowed:
  "sanitizePathD label =
     (if \<exists>c \<in> set label. c \<in> set ''bdfgijknopruwxyBDFGIJKNOPRUWXY'' then Null else Val label)"
  by (simp only: sanitizePathD_def regex_test_iff inCharClass_iff)

section \<open>Properties of the fill loop\<close>

text \<open>
  The decrement of the model against the subtraction of the language: they are equal on the
  integers up to \<open>2 ^ 53\<close>, and one step gives the same test against 0 for every counter
  but the reals strictly between 1 and \<open>1 + 2 powi (- 1074)\<close>, none of which is a double.
\<close>

lemma decrement_integer:
  assumes "- (2 ^ 53) + 1 < n" "n \<le> 2 ^ 53"
  shows "js_sub (Finite (of_int n)) (Finite 1) = decrement (Finite (of_int n))"
proof (cases "n = 1")
  case True
  then show ?thesis by (simp add: js_sub_def js_add_def is_infinite_def zero_def)
next
  case False
  then have ne: "n - 1 \<noteq> 0" by simp
  have "\<bar>n - 1\<bar> < 2 ^ 53" using assms by linarith
  then have "fl (of_int (n - 1)) = Finite (of_int (n - 1))" using ne by (rule fl_of_int)
  then show ?thesis using False by (simp add: js_sub_def js_add_def is_infinite_def)
qed

lemma decrement_test:
  assumes "x \<le> 1 \<or> 1 + 2 powi (- 1074) \<le> x"
  shows "js_gt (js_sub (Finite x) (Finite 1)) (Finite 0) = js_gt (decrement (Finite x)) (Finite 0)"
proof -
  consider "x = 1" | "x < 1" | "1 + 2 powi (- 1074) \<le> x" using assms by linarith
  then show ?thesis
  proof cases
    case 1
    then show ?thesis by (simp add: js_sub_def js_add_def is_infinite_def zero_def)
  next
    case 2
    then have "negative (fl (x - 1))" by (intro negative_fl) simp
    then have "\<not> js_gt (fl (x - 1)) (Finite 0)" by (cases "fl (x - 1)") simp_all
    then show ?thesis using 2 by (simp add: js_sub_def js_add_def is_infinite_def)
  next
    case 3
    then have le: "2 powi (- 1074) \<le> x - 1" by linarith
    then have pos: "0 < x - 1" by (rule powi_le_pos)
    have "atLeastPow (- 1074) (fl (x - 1))" using le by (rule atLeastPow_fl) simp
    then have "js_gt (fl (x - 1)) (Finite 0)" by (rule atLeastPow_above_zero)
    then show ?thesis using pos by (simp add: js_sub_def js_add_def is_infinite_def)
  qed
qed

lemma fillStep_finite:
  "fillStep i j (Finite p, dots) = (Finite (p - 1), dots[i := (dots ! i)[j := 0 < p]])"
  by (simp add: fillStep_def)

lemma rowFill_0: "rowFill p 0 row = row"
  by (simp add: rowFill_def map_nth)

lemma length_rowFill [simp]: "length (rowFill p n row) = length row"
  by (simp add: rowFill_def)

lemma rowFill_Suc:
  assumes "n < length row"
  shows "(rowFill p n row)[n := 0 < p - real n] = rowFill p (Suc n) row"
  using assms by (intro nth_equalityI) (auto simp: rowFill_def nth_list_update less_Suc_eq)

lemma inner_fill:
  assumes "i < length dots" "n \<le> length (dots ! i)"
  shows "fold (fillStep i) [0..<n] (Finite p, dots)
           = (Finite (p - real n), dots[i := rowFill p n (dots ! i)])"
  using assms(2)
proof (induction n)
  case 0
  show ?case by (simp add: rowFill_0)
next
  case (Suc n)
  then have n: "n < length (dots ! i)" by simp
  have "fold (fillStep i) [0..<Suc n] (Finite p, dots)
          = fillStep i n (Finite (p - real n), dots[i := rowFill p n (dots ! i)])"
    using Suc by simp
  also have "\<dots> = (Finite (p - real n - 1),
                     dots[i := (rowFill p n (dots ! i))[n := 0 < p - real n]])"
    using assms(1) by (simp add: fillStep_finite)
  also have "\<dots> = (Finite (p - real (Suc n)), dots[i := rowFill p (Suc n) (dots ! i)])"
    unfolding rowFill_Suc [OF n] by (simp add: algebra_simps)
  finally show ?case .
qed

lemma rowFill_full:
  "length row = 10 \<Longrightarrow> rowFill p 10 row = map (\<lambda>j. 0 < p - real j) [0..<10]"
  by (simp add: rowFill_def)

lemma length_gridFill [simp]: "length (gridFill p d) = 10"
  by (simp add: gridFill_def)

lemma nth_gridFill:
  "i < 10 \<Longrightarrow> gridFill p d ! i =
     (if 10 - d \<le> i then map (\<lambda>j. 0 < p - real ((9 - i) * 10 + j)) [0..<10]
      else replicate 10 False)"
  by (simp add: gridFill_def)

lemma gridFill_0: "gridFill p 0 = replicate 10 (replicate 10 False)"
  by (intro nth_equalityI) (simp_all add: nth_gridFill)

lemma gridFill_Suc:
  assumes "d < 10"
  shows "(gridFill p d)[9 - d := map (\<lambda>j. 0 < p - real (10 * d) - real j) [0..<10]]
           = gridFill p (Suc d)"
proof (rule nth_equalityI)
  show "length ((gridFill p d)[9 - d := map (\<lambda>j. 0 < p - real (10 * d) - real j) [0..<10]])
          = length (gridFill p (Suc d))"
    by simp
next
  fix i
  assume "i < length ((gridFill p d)[9 - d := map (\<lambda>j. 0 < p - real (10 * d) - real j) [0..<10]])"
  then have i: "i < 10" by simp
  show "(gridFill p d)[9 - d := map (\<lambda>j. 0 < p - real (10 * d) - real j) [0..<10]] ! i
          = gridFill p (Suc d) ! i"
  proof (cases "i = 9 - d")
    case True
    then have "9 - i = d" using assms by simp
    then show ?thesis using True i assms
      by (simp add: nth_gridFill algebra_simps)
  next
    case False
    then have "(10 - d \<le> i) = (10 - Suc d \<le> i)" using assms by auto
    then show ?thesis using False i by (simp add: nth_gridFill)
  qed
qed

lemma outer_fill:
  assumes "d \<le> 10"
  shows "fold (\<lambda>i. fold (fillStep i) [0..<10]) (rev [10 - d..<10])
           (Finite p, replicate 10 (replicate 10 False))
         = (Finite (p - real (10 * d)), gridFill p d)"
  using assms
proof (induction d)
  case 0
  show ?case by (simp add: gridFill_0)
next
  case (Suc d)
  then have d: "d < 10" by simp
  have "9 - d < 10" by simp
  then have "[9 - d..<10] = (9 - d) # [Suc (9 - d)..<10]" by (rule upt_conv_Cons)
  moreover have "10 - Suc d = 9 - d" by simp
  moreover have "Suc (9 - d) = 10 - d" using d by simp
  ultimately have list: "[10 - Suc d..<10] = (9 - d) # [10 - d..<10]" by simp
  have row: "length (gridFill p d ! (9 - d)) = 10" using d by (simp add: nth_gridFill)
  have "fold (\<lambda>i. fold (fillStep i) [0..<10]) (rev [10 - Suc d..<10])
          (Finite p, replicate 10 (replicate 10 False))
        = fold (fillStep (9 - d)) [0..<10] (Finite (p - real (10 * d)), gridFill p d)"
    unfolding list using Suc.IH d by simp
  also have "\<dots> = (Finite (p - real (10 * d) - real 10),
                    (gridFill p d)[9 - d := rowFill (p - real (10 * d)) 10 (gridFill p d ! (9 - d))])"
    using d row by (intro inner_fill) simp_all
  also have "rowFill (p - real (10 * d)) 10 (gridFill p d ! (9 - d))
               = map (\<lambda>j. 0 < p - real (10 * d) - real j) [0..<10]"
    using row by (rule rowFill_full)
  also have "(gridFill p d)[9 - d := map (\<lambda>j. 0 < p - real (10 * d) - real j) [0..<10]]
               = gridFill p (Suc d)"
    using d by (rule gridFill_Suc)
  also have "p - real (10 * d) - real 10 = p - real (10 * Suc d)" by simp
  finally show ?case .
qed

lemma updateFill_closed: "updateFill (Finite p) = gridFill p 10"
  using outer_fill [of 10 p] by (simp add: updateFill_def)

lemma gridFill_nth_nth:
  "i < 10 \<Longrightarrow> j < 10 \<Longrightarrow> gridFill p 10 ! i ! j = (0 < p - real ((9 - i) * 10 + j))"
  by (simp add: nth_gridFill)

lemma gridFill_0_percent: "gridFill 0 10 = replicate 10 (replicate 10 False)"
  by code_simp

lemma gridFill_100_percent: "gridFill 100 10 = replicate 10 (replicate 10 True)"
  by code_simp

lemma gridFill_37_percent:
  "gridFill 37 10 = replicate 6 (replicate 10 False) @ [replicate 7 True @ replicate 3 False]
                      @ replicate 3 (replicate 10 True)"
  by code_simp

text \<open>
  C7. The dots are visited from the bottom row up (row 9 first, row 0 last) and from left to
  right within a row; the dot in row \<open>i\<close> and column \<open>j\<close> is filled exactly when the
  counter, which starts at the percentage and has been decremented once per dot visited
  before, is still above 0. So 0 fills no dot, 100 fills all of them, and 37 fills 37 dots:
  the three lowest rows and the first seven dots of the fourth row from the bottom.
\<close>

theorem updateFill_bottom_up:
  "(\<forall>i<10. \<forall>j<10. updateFill (Finite p) ! i ! j = (0 < p - real ((9 - i) * 10 + j)))
   \<and> updateFill (Finite 0) = replicate 10 (replicate 10 False)
   \<and> updateFill (Finite 100) = replicate 10 (replicate 10 True)
   \<and> updateFill (Finite 37) =
        replicate 6 (replicate 10 False) @ [replicate 7 True @ replicate 3 False]
          @ replicate 3 (replicate 10 True)
   \<and> length (filter id (concat (updateFill (Finite 37)))) = 37"
proof (intro conjI)
  show "\<forall>i<10. \<forall>j<10. updateFill (Finite p) ! i ! j = (0 < p - real ((9 - i) * 10 + j))"
    unfolding updateFill_closed using gridFill_nth_nth by blast
  show "updateFill (Finite 0) = replicate 10 (replicate 10 False)"
    by (simp only: updateFill_closed gridFill_0_percent)
  show "updateFill (Finite 100) = replicate 10 (replicate 10 True)"
    by (simp only: updateFill_closed gridFill_100_percent)
  show "updateFill (Finite 37) =
          replicate 6 (replicate 10 False) @ [replicate 7 True @ replicate 3 False]
            @ replicate 3 (replicate 10 True)"
    by (simp only: updateFill_closed gridFill_37_percent)
  show "length (filter id (concat (updateFill (Finite 37)))) = 37"
    by (simp only: updateFill_closed gridFill_37_percent) (simp add: numeral_eq_Suc)
qed

theorem updateFill_bottom_up_witness:
  "(6::nat) < 10 \<and> (7::nat) < 10 \<and> updateFill (Finite 37) ! 6 ! 6 \<and> \<not> updateFill (Finite 37) ! 6 ! 7"
proof -
  have less: "(6::nat) < 10" "(7::nat) < 10" by simp_all
  note dot = updateFill_bottom_up [of 37, THEN conjunct1, rule_format]
  show ?thesis using dot [OF less(1) less(1)] dot [OF less(1) less(2)] by simp
qed

section \<open>Properties of the converter\<close>

lemmas scenario_defs =
  categoryView_def numberColumn_def cellColumn_def readValues_def columnStep_def hasRole_def
  initialValuesState_def sumValues_def sumValuesStep_def js_get_def js_set_def Let_def
  summedTotals_def itemCount_def seriesTotals_def categoryLabels_def category0_def
  countOf_def totalsOrZeros_def

lemma foldl_js_max_finite:
  "foldl js_max (Finite a) (map Finite rs) = Finite (Max (insert a (set rs)))"
proof (induction rs arbitrary: a)
  case Nil
  show ?case by simp
next
  case (Cons r rs)
  have "js_max (Finite a) (Finite r) = Finite (max a r)"
    by (simp add: js_max_def max_def)
  moreover have "Max (insert (max a r) (set rs)) = Max (insert a (set (r # rs)))"
    by (cases "set rs = {}") (simp_all add: max.assoc)
  ultimately show ?case using Cons.IH [of "max a r"] by simp
qed

lemma Math_max_finite:
  assumes "rs \<noteq> []"
  shows "Math_max (map (\<lambda>r. Val (Finite r)) rs) = Finite (Max (set rs))"
proof -
  obtain r rs' where rs: "rs = r # rs'" using assms by (cases rs) auto
  have "Math_max (map (\<lambda>r. Val (Finite r)) rs) = foldl js_max (Finite r) (map Finite rs')"
    by (simp add: Math_max_def rs js_max_def comp_def)
  then show ?thesis by (simp add: foldl_js_max_finite rs)
qed

lemma Math_max_empty: "Math_max [] = NegInfinity"
  by (simp add: Math_max_def)

lemma vmValues_converter:
  "vmValues (converter f dv) =
     normalizeValues (minValues (readValues dv)) (maxValues (readValues dv)) (summedTotals f dv)"
  by (simp add: converter_def Let_def)

lemma normalizeValues_identity:
  assumes "\<forall>r \<in> set rs. r \<le> 100"
  shows "normalizeValues minVs None (map (\<lambda>r. Val (Finite r)) rs) = map (\<lambda>r. Val (Finite r)) rs"
proof (cases "rs = []")
  case True
  then show ?thesis by (simp add: normalizeValues_def Math_max_empty)
next
  case False
  then have "\<not> 100 < Max (set rs)" using assms by (simp add: not_less)
  then show ?thesis using False by (simp add: normalizeValues_def Math_max_finite Let_def)
qed

text \<open>
  C4. Without a series of maximum bounds, and with totals that are all at most 100, the
  values of the view model are the totals, entry for entry.
\<close>

theorem converter_identity_below_100:
  assumes "maxValues (readValues dv) = None"
    and "summedTotals f dv = map (\<lambda>r. Val (Finite r)) rs"
    and "\<forall>r \<in> set rs. r \<le> 100"
  shows "vmValues (converter f dv) = summedTotals f dv"
  using assms by (simp add: vmValues_converter normalizeValues_identity)

theorem converter_identity_below_100_witness:
  "maxValues (readValues (categoryView [''A'', ''B'', ''C''] (Some [numberColumn ''Values'' [10, 50, 90]])))
     = None
   \<and> summedTotals id (categoryView [''A'', ''B'', ''C''] (Some [numberColumn ''Values'' [10, 50, 90]]))
       = map (\<lambda>r. Val (Finite r)) [10, 50, 90]
   \<and> (10 :: real) \<le> 100 \<and> (50 :: real) \<le> 100 \<and> (90 :: real) \<le> 100
   \<and> vmValues (converter id (categoryView [''A'', ''B'', ''C''] (Some [numberColumn ''Values'' [10, 50, 90]])))
       = [Val (Finite 10), Val (Finite 50), Val (Finite 90)]"
proof -
  let ?dv = "categoryView [''A'', ''B'', ''C''] (Some [numberColumn ''Values'' [10, 50, 90]])"
  have 1: "maxValues (readValues ?dv) = None" by (simp add: scenario_defs)
  have 2: "summedTotals id ?dv = map (\<lambda>r. Val (Finite r)) [10, 50, 90]"
    by (simp add: scenario_defs js_add_finite)
  have 3: "\<forall>r \<in> set [10, 50, 90 :: real]. r \<le> 100" by simp
  show ?thesis
    using converter_identity_below_100 [OF 1 2 3] 1 2 by simp
qed

text \<open>Negative numbers stay negative under a positive divisor and under the final rounding.\<close>

lemma negative_div: "negative a \<Longrightarrow> 0 < m \<Longrightarrow> negative (js_div a (Finite m))"
  by (cases a)
    (auto simp: js_div_def is_infinite_def is_zero_def infinity_def zero_def negative_fl
       divide_neg_pos)

lemma negative_round: "negative a \<Longrightarrow> negative (Math_round a)"
proof (cases a)
  case (Finite x)
  assume "negative a"
  then have x: "x < 0" using Finite by simp
  then have "x + 1 / 2 < of_int 1" by simp
  then have le: "\<lfloor>x + 1 / 2\<rfloor> < 1" by (simp only: floor_less_iff)
  define k where "k = \<lfloor>x + 1 / 2\<rfloor>"
  have k: "k < 1" using le by (simp only: k_def)
  have round: "Math_round a = (if k = 0 then zero (x < 0) else Finite (of_int k))"
    by (simp only: Finite Math_round.simps k_def)
  show ?thesis
  proof (cases "k = 0")
    case True
    then show ?thesis using x by (simp add: round zero_def)
  next
    case False
    with k have "k < 0" by simp
    then show ?thesis using False by (simp add: round)
  qed
qed simp_all

lemma negative_le: "negative a \<Longrightarrow> js_le a (Finite 100)"
  by (cases a) (simp_all add: js_le_def)

lemma Math_round_le:
  assumes "0 \<le> v" "v < 100 + 1 / 2"
  shows "js_le (Math_round (Finite v)) (Finite 100)"
proof -
  have "v + 1 / 2 < of_int 101" using assms(2) by simp
  then have "\<lfloor>v + 1 / 2\<rfloor> < 101" by (simp only: floor_less_iff)
  then have "\<lfloor>v + 1 / 2\<rfloor> \<le> 100" by simp
  then have "(of_int \<lfloor>v + 1 / 2\<rfloor> :: real) \<le> 100" by (simp only: of_int_le_numeral_iff)
  then show ?thesis using assms(1) by (simp add: js_le_def zero_def)
qed

lemma rescaled_le_100:
  assumes "r \<le> m" "100 < m" "js_mul (Finite r) (Finite 100) \<noteq> PosInfinity"
  shows "js_le (Math_round (js_div (js_mul (Finite r) (Finite 100)) (Finite m))) (Finite 100)"
proof -
  have m: "0 < m" using assms(2) by simp
  consider "r < 0" | "r = 0" | "0 < r" by linarith
  then show ?thesis
  proof cases
    case 1
    then have "r * 100 < 0" by simp
    then have "negative (js_mul (Finite r) (Finite 100))"
      using 1 by (simp add: js_mul_finite negative_fl)
    then have "negative (js_div (js_mul (Finite r) (Finite 100)) (Finite m))"
      using m by (rule negative_div)
    then show ?thesis by (intro negative_le negative_round)
  next
    case 2
    then show ?thesis using m by (simp add: js_le_def zero_def)
  next
    case 3
    define p where "p = r * 100"
    have p: "0 < p" using 3 by (simp add: p_def)
    have mul: "js_mul (Finite r) (Finite 100) = fl p" using 3 by (simp add: js_mul_finite p_def)
    have nov: "\<not> 2 powi 1024 \<le> \<bar>rounded p\<bar>"
      using assms(3) p unfolding mul by (auto simp: fl_def infinity_def)
    define q where "q = rounded p"
    have q0: "0 \<le> q" unfolding q_def using p by (intro rounded_nonneg) simp
    have flp: "fl p = Finite q" using nov p by (simp add: fl_def zero_def q_def)
    have "(2::real) powi (- 1075) \<le> 2 powi 0" by (rule powi_mono) simp
    then have "\<bar>q - p\<bar> \<le> \<bar>p\<bar> / 2 ^ 53 + 1"
      using rounded_error_mixed [of p] unfolding q_def by simp
    then have qhi: "q \<le> p + p / 2 ^ 53 + 1" using p by linarith
    show ?thesis
    proof (cases "q = 0")
      case True
      then show ?thesis using m by (simp add: mul flp js_le_def zero_def)
    next
      case False
      then have q: "0 < q" using q0 by simp
      define y where "y = q / m"
      have dv: "js_div (Finite q) (Finite m) = fl y" using q m by (simp add: js_div_finite y_def)
      have y0: "0 < y" using q m by (simp add: y_def)
      define s where "s = p / m"
      have "r * 100 \<le> 100 * m" using assms(1) by simp
      then have s: "s \<le> 100" using m by (simp add: s_def p_def divide_le_eq)
      define t where "t = 1 / m"
      have "1 / m \<le> 1 / 100" using assms(2) by (intro divide_left_mono) simp_all
      then have t: "t \<le> 1 / 100" by (simp only: t_def)
      have "q / m \<le> (p + p / 2 ^ 53 + 1) / m"
        using qhi m by (intro divide_right_mono) simp_all
      also have "\<dots> = s + s / 2 ^ 53 + t"
        by (simp add: s_def t_def add_divide_distrib)
      finally have "y \<le> s + s / 2 ^ 53 + t" by (simp only: y_def)
      moreover have "0 < s" using p m by (simp add: s_def)
      ultimately have yhi: "y \<le> 100 + 1 / 8" using s t by simp
      have "\<bar>y\<bar> < 2 powi 7" using y0 yhi by simp
      then have fly: "fl y = (if rounded y = 0 then zero (y < 0) else Finite (rounded y))"
        and "\<bar>rounded y - y\<bar> \<le> 2 powi (7 - 54)"
        by (rule fl_finite_below, simp, simp, rule rounded_error_below, simp)
      then have "\<bar>rounded y - y\<bar> \<le> 1 / 8" by simp
      then have vhi: "rounded y < 100 + 1 / 2" using yhi by linarith
      have v0: "0 \<le> rounded y" using y0 by (intro rounded_nonneg) simp
      have "fl y = Finite (rounded y)" using fly y0 by (simp add: zero_def)
      then show ?thesis using Math_round_le [OF v0 vhi] by (simp only: mul flp dv)
    qed
  qed
qed

lemma Math_round_fl:
  assumes "of_int n - 1 / 2 + 1 / 1024 \<le> x" "x \<le> of_int n + 1 / 2 - 1 / 1024"
    and "1 \<le> n" "n \<le> 1000"
  shows "Math_round (fl x) = Finite (of_int n)"
proof -
  have n: "(1::real) \<le> of_int n" "(of_int n :: real) \<le> 1000" using assms(3,4) by simp_all
  have x0: "0 < x" using assms(1) n by linarith
  have "\<bar>x\<bar> < 2 powi 10" using x0 assms(2) n by simp
  then have flx: "fl x = (if rounded x = 0 then zero (x < 0) else Finite (rounded x))"
    and "\<bar>rounded x - x\<bar> \<le> 2 powi (10 - 54)"
    by (rule fl_finite_below, simp, simp, rule rounded_error_below, simp)
  then have "\<bar>rounded x - x\<bar> \<le> 1 / 2048" by simp
  then have lo: "of_int n \<le> rounded x + 1 / 2" and hi: "rounded x + 1 / 2 < of_int n + 1"
    using assms(1,2) by linarith+
  then have fl_eq: "\<lfloor>rounded x + 1 / 2\<rfloor> = n" by (intro floor_unique)
  have "rounded x \<noteq> 0" using lo n by linarith
  then show ?thesis using flx fl_eq assms(3) by simp
qed

lemma scenario_900_totals:
  "summedTotals id (categoryView [''A'', ''B'', ''C''] (Some [numberColumn ''Values'' [100, 500, 900]]))
     = map (\<lambda>r. Val (Finite r)) [100, 500, 900]"
  by (simp add: scenario_defs js_add_finite)

lemma scenario_900_no_bounds:
  "maxValues (readValues (categoryView [''A'', ''B'', ''C'']
      (Some [numberColumn ''Values'' [100, 500, 900]]))) = None"
  by (simp add: scenario_defs)

lemma normalizeValues_rescale:
  assumes "rs \<noteq> []" "100 < Max (set rs)"
  shows "normalizeValues minVs None (map (\<lambda>r. Val (Finite r)) rs)
           = map (\<lambda>r. Val (Math_round (js_div (js_mul (Finite r) (Finite 100))
                                          (Finite (Max (set rs)))))) rs"
  using assms by (simp add: normalizeValues_def Math_max_finite Let_def comp_def)

lemma converter_example_900:
  "vmValues (converter id (categoryView [''A'', ''B'', ''C''] (Some [numberColumn ''Values'' [100, 500, 900]])))
     = [Val (Finite 11), Val (Finite 56), Val (Finite 100)]"
proof -
  have a: "Math_round (js_div (js_mul (Finite 100) (Finite 100)) (Finite 900)) = Finite 11"
    using Math_round_fl [of 11 "10000 / 900"] by (simp add: js_mul_finite js_div_finite)
  have b: "Math_round (js_div (js_mul (Finite 500) (Finite 100)) (Finite 900)) = Finite 56"
    using Math_round_fl [of 56 "50000 / 900"] by (simp add: js_mul_finite js_div_finite)
  have c: "Math_round (js_div (js_mul (Finite 900) (Finite 100)) (Finite 900)) = Finite 100"
    by (simp add: js_mul_finite js_div_finite)
  have "normalizeValues None None (map (\<lambda>r. Val (Finite r)) [100, 500, 900])
          = [Val (Finite 11), Val (Finite 56), Val (Finite 100)]"
    using normalizeValues_rescale [of "[100, 500, 900]" None] by (simp add: a b c)
  then show ?thesis
    by (simp only: vmValues_converter scenario_900_totals scenario_900_no_bounds)
      (simp add: scenario_defs)
qed

text \<open>
  C3, as the code has it. Without a series of maximum bounds, and with finite totals whose
  largest entry, the peak, is above 100, every total \<open>t\<close> is replaced by \<^verbatim>\<open>Math.round\<close>
  of the double that \<^verbatim>\<open>t * 100 / peak\<close> computes, rounding the product and the
  quotient. The result is at most 100 for every total whose product \<open>t * 100\<close> does not
  overflow to \<open>Infinity\<close>. The categories A, B, C with the single series 100, 500, 900 give
  11, 56, 100.
\<close>

theorem converter_rescales_above_100:
  assumes "maxValues (readValues dv) = None"
    and "summedTotals f dv = map (\<lambda>r. Val (Finite r)) rs"
    and "rs \<noteq> []" and "100 < Max (set rs)"
  shows "vmValues (converter f dv)
           = map (\<lambda>r. Val (Math_round (js_div (js_mul (Finite r) (Finite 100))
                                          (Finite (Max (set rs)))))) rs
       \<and> (\<forall>r \<in> set rs. js_mul (Finite r) (Finite 100) \<noteq> PosInfinity \<longrightarrow>
            js_le (Math_round (js_div (js_mul (Finite r) (Finite 100)) (Finite (Max (set rs)))))
              (Finite 100))
       \<and> vmValues (converter id (categoryView [''A'', ''B'', ''C'']
                                  (Some [numberColumn ''Values'' [100, 500, 900]])))
           = [Val (Finite 11), Val (Finite 56), Val (Finite 100)]"
proof (intro conjI)
  show "vmValues (converter f dv)
          = map (\<lambda>r. Val (Math_round (js_div (js_mul (Finite r) (Finite 100))
                                         (Finite (Max (set rs)))))) rs"
    using assms by (simp add: vmValues_converter normalizeValues_rescale)
  show "\<forall>r \<in> set rs. js_mul (Finite r) (Finite 100) \<noteq> PosInfinity \<longrightarrow>
            js_le (Math_round (js_div (js_mul (Finite r) (Finite 100)) (Finite (Max (set rs)))))
              (Finite 100)"
    using assms(4) by (auto intro!: rescaled_le_100)
  show "vmValues (converter id (categoryView [''A'', ''B'', ''C'']
                                 (Some [numberColumn ''Values'' [100, 500, 900]])))
          = [Val (Finite 11), Val (Finite 56), Val (Finite 100)]"
    by (rule converter_example_900)
qed

theorem converter_rescales_above_100_witness:
  "maxValues (readValues (categoryView [''A'', ''B''] (Some [numberColumn ''Values'' [250, 1000]])))
     = None
   \<and> summedTotals id (categoryView [''A'', ''B''] (Some [numberColumn ''Values'' [250, 1000]]))
       = map (\<lambda>r. Val (Finite r)) [250, 1000]
   \<and> [250, 1000 :: real] \<noteq> [] \<and> 100 < Max (set [250, 1000 :: real])
   \<and> js_mul (Finite 250) (Finite 100) \<noteq> PosInfinity
   \<and> js_mul (Finite 1000) (Finite 100) \<noteq> PosInfinity
   \<and> vmValues (converter id (categoryView [''A'', ''B''] (Some [numberColumn ''Values'' [250, 1000]])))
       = [Val (Finite 25), Val (Finite 100)]
   \<and> js_le (Finite 25) (Finite 100) \<and> js_le (Finite 100) (Finite 100)"
proof -
  let ?dv = "categoryView [''A'', ''B''] (Some [numberColumn ''Values'' [250, 1000]])"
  have 1: "maxValues (readValues ?dv) = None" by (simp add: scenario_defs)
  have 2: "summedTotals id ?dv = map (\<lambda>r. Val (Finite r)) [250, 1000]"
    by (simp add: scenario_defs js_add_finite)
  have 3: "[250, 1000 :: real] \<noteq> []" by simp
  have 4: "100 < Max (set [250, 1000 :: real])" by simp
  have 5: "js_mul (Finite 250) (Finite 100) = Finite 25000"
    "js_mul (Finite 1000) (Finite 100) = Finite 100000"
    by (simp_all add: js_mul_finite)
  have 6: "js_div (Finite 25000) (Finite 1000) = Finite 25"
    "js_div (Finite 100000) (Finite 1000) = Finite 100"
    by (simp_all add: js_div_finite)
  show ?thesis
    using converter_rescales_above_100 [OF 1 2 3 4] 1 2
    by (simp add: 5 6 js_le_def)
qed

text \<open>
  C3, as it is written, fails for large totals: the single total \<open>2 powi 1020\<close> is its own
  peak, above 100; the product with 100 overflows to \<open>Infinity\<close>, which the division and
  the rounding keep, so the value is \<open>Infinity\<close>, not 100, and it is above 100.
\<close>

lemma hugeTotal_pos: "0 < hugeTotal"
  by (simp add: hugeTotal_def)

lemma hugeTotal_above_100: "100 < hugeTotal"
proof -
  have "(2::real) powi 7 \<le> 2 powi 1020" by (rule powi_mono) simp
  then show ?thesis by (simp add: hugeTotal_def)
qed

lemma fl_hugeTotal: "fl hugeTotal = Finite hugeTotal"
  unfolding hugeTotal_def by (rule fl_exact [of _ 1 1020]) simp_all

lemma fl_hugeTotal_100: "fl (hugeTotal * 100) = PosInfinity"
proof -
  have "2 powi 1024 \<le> \<bar>hugeTotal * 100\<bar>" by (simp add: hugeTotal_def)
  then have "fl (hugeTotal * 100) = infinity (hugeTotal * 100 < 0)" by (rule fl_overflow)
  then show ?thesis using hugeTotal_pos by (simp add: infinity_def not_less)
qed

theorem converter_rescales_overflow:
  "maxValues (readValues (categoryView [''A''] (Some [numberColumn ''Values'' [hugeTotal]]))) = None
   \<and> summedTotals id (categoryView [''A''] (Some [numberColumn ''Values'' [hugeTotal]]))
       = [Val (Finite hugeTotal)]
   \<and> 100 < Max (set [hugeTotal])
   \<and> vmValues (converter id (categoryView [''A''] (Some [numberColumn ''Values'' [hugeTotal]])))
       = [Val PosInfinity]
   \<and> js_gt PosInfinity (Finite 100)"
proof -
  let ?dv = "categoryView [''A''] (Some [numberColumn ''Values'' [hugeTotal]])"
  have ne: "hugeTotal \<noteq> 0" "\<not> hugeTotal < 0" using hugeTotal_pos by simp_all
  have 0: "minValues (readValues ?dv) = None" by (simp add: scenario_defs)
  have 1: "maxValues (readValues ?dv) = None" by (simp add: scenario_defs)
  have 2: "summedTotals id ?dv = map (\<lambda>r. Val (Finite r)) [hugeTotal]"
    using ne by (simp add: scenario_defs js_add_finite fl_hugeTotal)
  have 3: "Math_round (js_div (js_mul (Finite hugeTotal) (Finite 100)) (Finite hugeTotal))
             = PosInfinity"
    using ne by (simp add: js_mul_finite fl_hugeTotal_100 js_div_def is_infinite_def infinity_def)
  have "normalizeValues None None (map (\<lambda>r. Val (Finite r)) [hugeTotal]) = [Val PosInfinity]"
    using normalizeValues_rescale [of "[hugeTotal]" None] hugeTotal_above_100 by (simp add: 3)
  then have "vmValues (converter id ?dv) = [Val PosInfinity]"
    by (simp only: vmValues_converter 0 1 2)
  then show ?thesis using 1 2 hugeTotal_above_100 by simp
qed

lemma length_normalizeValues [simp]:
  "length (normalizeValues minVs maxVs totals) = length totals"
  by (simp add: normalizeValues_def Let_def split: option.split)

lemma normalizeValues_bounds_nth:
  assumes "i < length totals"
  shows "normalizeValues minVs (Some ms) totals ! i
           = Val (Math_round
               (js_div (js_mul (js_sub (ToNumber (totals ! i)) (localMinValue minVs i)) (Finite 100))
                  (js_sub (ToNumber (js_get ms i)) (localMinValue minVs i))))"
  using assms by (simp add: normalizeValues_def Let_def)

lemma localMinValue_words:
  "localMinValue minVs i =
     (case minVs of
        Some mins \<Rightarrow> if i < length mins \<and> ToBoolean (mins ! i) then ToNumber (mins ! i) else Finite 0
      | None \<Rightarrow> Finite 0)"
  by (simp add: localMinValue_def js_get_def split: option.split)

lemma zero_divisor_not_finite: "is_zero b \<Longrightarrow> \<not> is_finite (Math_round (js_div a b))"
  by (cases a) (auto simp: js_div_def is_zero_def is_infinite_def infinity_def)

lemma js_sub_zero: "x \<noteq> 0 \<Longrightarrow> js_sub (Finite x) (Finite 0) = fl x"
  by (simp add: js_sub_def js_add_def is_infinite_def)

lemma js_sub_zero_zero: "js_sub (Finite 0) (Finite 0) = Finite 0"
  by (simp add: js_sub_def js_add_def is_infinite_def zero_def)

lemma js_sub_negzero_zero: "js_sub NegZero (Finite 0) = NegZero"
  by (simp add: js_sub_def js_add_def is_infinite_def zero_def)

lemma converter_bounds_examples:
  "vmValues (converter id (categoryView [''A'', ''B'', ''C'']
       (Some [numberColumn ''Values'' [150, 5, 0], numberColumn ''MaxValue'' [100, 0, 0]])))
     = [Val (Finite 150), Val PosInfinity, Val NaN]"
proof -
  let ?dv = "categoryView [''A'', ''B'', ''C'']
       (Some [numberColumn ''Values'' [150, 5, 0], numberColumn ''MaxValue'' [100, 0, 0]])"
  have 0: "minValues (readValues ?dv) = None" by (simp add: scenario_defs)
  have 1: "maxValues (readValues ?dv) = Some [Val (Finite 100), Val (Finite 0), Val (Finite 0)]"
    by (simp add: scenario_defs)
  have 2: "summedTotals id ?dv = [Val (Finite 150), Val (Finite 5), Val (Finite 0)]"
    by (simp add: scenario_defs js_add_finite)
  have a: "Math_round (js_div (js_mul (js_sub (Finite 150) (Finite 0)) (Finite 100))
                          (js_sub (Finite 100) (Finite 0))) = Finite 150"
    by (simp add: js_sub_zero js_mul_finite js_div_finite)
  have b: "Math_round (js_div (js_mul (js_sub (Finite 5) (Finite 0)) (Finite 100))
                          (js_sub (Finite 0) (Finite 0))) = PosInfinity"
    by (simp add: js_sub_zero js_sub_zero_zero js_mul_finite js_div_def is_infinite_def
          is_zero_def infinity_def)
  have c: "Math_round (js_div (js_mul (js_sub (Finite 0) (Finite 0)) (Finite 100))
                          (js_sub (Finite 0) (Finite 0))) = NaN"
    by (simp add: js_sub_zero_zero js_div_def is_infinite_def is_zero_def)
  have "[0..<3] = [0, 1, 2]" by (simp add: upt_rec)
  then show ?thesis
    by (simp only: vmValues_converter 0 1 2)
      (simp add: normalizeValues_def localMinValue_def js_get_def a b c)
qed

lemma converter_negative_zero_example:
  "vmValues (converter id (categoryView [''A'']
       (Some [numberColumn ''Values'' [5], cellColumn ''MaxValue'' [NegZero]])))
     = [Val NegInfinity]"
proof -
  let ?dv = "categoryView [''A'']
       (Some [numberColumn ''Values'' [5], cellColumn ''MaxValue'' [NegZero]])"
  have 0: "minValues (readValues ?dv) = None" by (simp add: scenario_defs)
  have 1: "maxValues (readValues ?dv) = Some [Val NegZero]" by (simp add: scenario_defs)
  have 2: "summedTotals id ?dv = [Val (Finite 5)]" by (simp add: scenario_defs js_add_finite)
  have a: "Math_round (js_div (js_mul (js_sub (Finite 5) (Finite 0)) (Finite 100))
                          (js_sub NegZero (Finite 0))) = NegInfinity"
    by (simp add: js_sub_zero js_sub_negzero_zero js_mul_finite js_div_def is_infinite_def
          is_zero_def infinity_def)
  show ?thesis
    by (simp only: vmValues_converter 0 1 2)
      (simp add: normalizeValues_def localMinValue_def js_get_def a)
qed

text \<open>
  C2, as the code has it. With a series of maximum bounds, the value at every index \<open>i\<close> is
  \<^verbatim>\<open>Math.round((totals[i] - min) * 100 / (max[i] - min))\<close> in the arithmetic of doubles,
  each operation rounded, where \<open>min\<close> is the entry of the minimum bounds at \<open>i\<close> when there
  is one and it is truthy (not 0, not NaN, not \<^verbatim>\<open>null\<close>), and 0 otherwise. Nothing clamps
  the value, and nothing guards the division: when the divisor \<open>max[i] - min\<close> is a zero the
  value is NaN or an infinity, and the converter still returns an array as long as the
  totals. The totals 150, 5, 0 under the maximum bounds 100, 0, 0 give 150, \<open>Infinity\<close> and
  NaN; the total 5 under the maximum bound \<open>-0\<close> gives \<open>-Infinity\<close>.
\<close>

theorem converter_bounds:
  assumes "maxValues (readValues dv) = Some maxVs"
    and "i < length (summedTotals f dv)"
    and "t = ToNumber (summedTotals f dv ! i)"
    and "hi = (if i < length maxVs then ToNumber (maxVs ! i) else NaN)"
    and "lo = (case minValues (readValues dv) of
                 Some mins \<Rightarrow>
                   if i < length mins \<and> ToBoolean (mins ! i) then ToNumber (mins ! i)
                   else Finite 0
               | None \<Rightarrow> Finite 0)"
  shows "vmValues (converter f dv) ! i
           = Val (Math_round (js_div (js_mul (js_sub t lo) (Finite 100)) (js_sub hi lo)))
       \<and> (is_zero (js_sub hi lo) \<longrightarrow>
            \<not> is_finite (Math_round (js_div (js_mul (js_sub t lo) (Finite 100)) (js_sub hi lo))))
       \<and> length (vmValues (converter f dv)) = length (summedTotals f dv)
       \<and> vmValues (converter id (categoryView [''A'', ''B'', ''C'']
              (Some [numberColumn ''Values'' [150, 5, 0], numberColumn ''MaxValue'' [100, 0, 0]])))
           = [Val (Finite 150), Val PosInfinity, Val NaN]
       \<and> vmValues (converter id (categoryView [''A'']
              (Some [numberColumn ''Values'' [5], cellColumn ''MaxValue'' [NegZero]])))
           = [Val NegInfinity]"
proof -
  have hi: "hi = ToNumber (js_get maxVs i)"
    using assms(4) by (simp add: js_get_def)
  have lo: "lo = localMinValue (minValues (readValues dv)) i"
    using assms(5) by (simp only: localMinValue_words)
  have main: "vmValues (converter f dv) ! i
                = Val (Math_round (js_div (js_mul (js_sub t lo) (Finite 100)) (js_sub hi lo)))"
    unfolding vmValues_converter assms(1) hi lo assms(3)
    using assms(2) by (rule normalizeValues_bounds_nth)
  have len: "length (vmValues (converter f dv)) = length (summedTotals f dv)"
    by (simp add: vmValues_converter)
  show ?thesis
    using main len zero_divisor_not_finite converter_bounds_examples
      converter_negative_zero_example
    by blast
qed

theorem converter_bounds_witness:
  "maxValues (readValues (categoryView [''A'', ''B'', ''C'']
       (Some [numberColumn ''Values'' [150, 5, 0], numberColumn ''MaxValue'' [100, 0, 0]])))
     = Some [Val (Finite 100), Val (Finite 0), Val (Finite 0)]
   \<and> (1::nat) < length (summedTotals id (categoryView [''A'', ''B'', ''C'']
       (Some [numberColumn ''Values'' [150, 5, 0], numberColumn ''MaxValue'' [100, 0, 0]])))
   \<and> is_zero (js_sub (Finite 0) (Finite 0))
   \<and> vmValues (converter id (categoryView [''A'', ''B'', ''C'']
       (Some [numberColumn ''Values'' [150, 5, 0], numberColumn ''MaxValue'' [100, 0, 0]]))) ! 1
       = Val (Math_round (js_div (js_mul (js_sub (Finite 5) (Finite 0)) (Finite 100))
                            (js_sub (Finite 0) (Finite 0))))
   \<and> \<not> is_finite (Math_round (js_div (js_mul (js_sub (Finite 5) (Finite 0)) (Finite 100))
                                   (js_sub (Finite 0) (Finite 0))))"
proof -
  let ?dv = "categoryView [''A'', ''B'', ''C'']
       (Some [numberColumn ''Values'' [150, 5, 0], numberColumn ''MaxValue'' [100, 0, 0]])"
  have 1: "maxValues (readValues ?dv) = Some [Val (Finite 100), Val (Finite 0), Val (Finite 0)]"
    by (simp add: scenario_defs)
  have 2: "summedTotals id ?dv = [Val (Finite 150), Val (Finite 5), Val (Finite 0)]"
    by (simp add: scenario_defs js_add_finite)
  have 3: "minValues (readValues ?dv) = None" by (simp add: scenario_defs)
  have 4: "(1::nat) < length (summedTotals id ?dv)" by (simp add: 2)
  have t: "Finite 5 = ToNumber (summedTotals id ?dv ! 1)" by (simp add: 2)
  have hi: "Finite 0 = (if (1::nat) < length [Val (Finite 100), Val (Finite 0), Val (Finite 0)]
                         then ToNumber ([Val (Finite 100), Val (Finite 0), Val (Finite 0)] ! 1) else NaN)"
    by simp
  have lo: "Finite 0 = (case minValues (readValues ?dv) of
                 Some mins \<Rightarrow>
                   if (1::nat) < length mins \<and> ToBoolean (mins ! 1) then ToNumber (mins ! 1)
                   else Finite 0
               | None \<Rightarrow> Finite 0)"
    by (simp add: 3)
  have z: "is_zero (js_sub (Finite 0) (Finite 0))" by (simp add: js_sub_zero_zero is_zero_def)
  show ?thesis
    using converter_bounds [OF 1 4 t hi lo] 1 4 z by blast
qed

text \<open>
  C2, as it is written, fails in two ways. A minimum bound that is NaN is there and is not
  zero, but the code takes 0 for it: the total 50 between the minimum bound NaN and the
  maximum bound 100 gives 50, where the formula with the minimum NaN gives NaN. And the
  operations round and overflow: the total \<open>2 powi 1020\<close> under a maximum bound of the same
  size gives \<open>Infinity\<close>, with a divisor that is not zero and an exact quotient of 100.
\<close>

theorem converter_bounds_counterexample:
  "minValues (readValues (categoryView [''A'']
       (Some [numberColumn ''Values'' [50], cellColumn ''MinValue'' [NaN],
              numberColumn ''MaxValue'' [100]]))) = Some [Val NaN]
   \<and> vmValues (converter id (categoryView [''A'']
       (Some [numberColumn ''Values'' [50], cellColumn ''MinValue'' [NaN],
              numberColumn ''MaxValue'' [100]]))) = [Val (Finite 50)]
   \<and> Math_round (js_div (js_mul (js_sub (Finite 50) NaN) (Finite 100)) (js_sub (Finite 100) NaN))
       = NaN
   \<and> vmValues (converter id (categoryView [''A'']
       (Some [numberColumn ''Values'' [hugeTotal], numberColumn ''MaxValue'' [hugeTotal]])))
       = [Val PosInfinity]
   \<and> js_sub (Finite hugeTotal) (Finite 0) = Finite hugeTotal
   \<and> round ((hugeTotal - 0) * 100 / (hugeTotal - 0)) = (100 :: int)"
proof -
  let ?dv = "categoryView [''A'']
       (Some [numberColumn ''Values'' [50], cellColumn ''MinValue'' [NaN],
              numberColumn ''MaxValue'' [100]])"
  let ?huge = "categoryView [''A'']
       (Some [numberColumn ''Values'' [hugeTotal], numberColumn ''MaxValue'' [hugeTotal]])"
  have ne: "hugeTotal \<noteq> 0" "\<not> hugeTotal < 0" using hugeTotal_pos by simp_all
  have 0: "minValues (readValues ?dv) = Some [Val NaN]" by (simp add: scenario_defs)
  have 1: "maxValues (readValues ?dv) = Some [Val (Finite 100)]" by (simp add: scenario_defs)
  have 2: "summedTotals id ?dv = [Val (Finite 50)]" by (simp add: scenario_defs js_add_finite)
  have a: "Math_round (js_div (js_mul (js_sub (Finite 50) (Finite 0)) (Finite 100))
                          (js_sub (Finite 100) (Finite 0))) = Finite 50"
    by (simp add: js_sub_zero js_mul_finite js_div_finite)
  have v: "vmValues (converter id ?dv) = [Val (Finite 50)]"
    by (simp only: vmValues_converter 0 1 2)
      (simp add: normalizeValues_def localMinValue_def js_get_def a)
  have n: "Math_round (js_div (js_mul (js_sub (Finite 50) NaN) (Finite 100))
                          (js_sub (Finite 100) NaN)) = NaN"
    by (simp add: js_sub_def js_add_def js_mul_def js_div_def)
  have h0: "minValues (readValues ?huge) = None" by (simp add: scenario_defs)
  have h1: "maxValues (readValues ?huge) = Some [Val (Finite hugeTotal)]"
    by (simp add: scenario_defs)
  have h2: "summedTotals id ?huge = [Val (Finite hugeTotal)]"
    using ne by (simp add: scenario_defs js_add_finite fl_hugeTotal)
  have s: "js_sub (Finite hugeTotal) (Finite 0) = Finite hugeTotal"
    using ne by (simp add: js_sub_zero fl_hugeTotal)
  have b: "Math_round (js_div (js_mul (js_sub (Finite hugeTotal) (Finite 0)) (Finite 100))
                          (js_sub (Finite hugeTotal) (Finite 0))) = PosInfinity"
    using ne by (simp add: s js_mul_finite fl_hugeTotal_100 js_div_def is_infinite_def infinity_def)
  have hv: "vmValues (converter id ?huge) = [Val PosInfinity]"
    by (simp only: vmValues_converter h0 h1 h2)
      (simp add: normalizeValues_def localMinValue_def js_get_def b)
  have r: "round ((hugeTotal - 0) * 100 / (hugeTotal - 0)) = (100 :: int)"
    using ne by simp
  show ?thesis using 0 v n hv s r by blast
qed

lemma totalsPaths_columnStep:
  "totalsPaths (columnStep pg col st) = None \<longleftrightarrow> totalsPaths st = None \<and> \<not> hasRole col ''Values''"
  by (simp add: columnStep_def Let_def)

lemma totalsPaths_fold_columnStep:
  "totalsPaths (fold (columnStep pg) cols st) = None
     \<longleftrightarrow> totalsPaths st = None \<and> (\<forall>col \<in> set cols. \<not> hasRole col ''Values'')"
  by (induction cols arbitrary: st) (auto simp: totalsPaths_columnStep)

lemma seriesTotals_None_iff:
  "seriesTotals dv = None \<longleftrightarrow>
     \<not> (\<exists>vc. valueColumns dv = Some vc \<and> metadataColumns dv
            \<and> (\<exists>col \<in> set (columnList vc). hasRole col ''Values''))"
  by (auto simp: seriesTotals_def readValues_def Let_def totalsPaths_fold_columnStep
        initialValuesState_def split: option.splits)

lemma categoryLabels_None_iff:
  "categoryLabels f dv = None \<longleftrightarrow> categories dv = None \<or> categories dv = Some []"
  by (auto simp: categoryLabels_def category0_def split: option.splits list.splits)

lemma converter_fields [simp]:
  "count (converter f dv) = itemCount f dv"
  "labelsArray (converter f dv) = categoryLabels f dv"
  "identities (converter f dv) = map_option identity (category0 dv)"
  "paths (converter f dv) = map_option snd (totalsPaths (readValues dv))"
  by (simp_all add: converter_def Let_def)

lemma no_data_values:
  assumes "categoryLabels f dv = None" "seriesTotals dv = None"
  shows "vmValues (converter f dv) = []"
proof -
  have "summedTotals f dv = []"
    using assms by (simp add: summedTotals_def itemCount_def countOf_def totalsOrZeros_def)
  then have "length (vmValues (converter f dv)) = 0"
    by (simp add: vmValues_converter)
  then show ?thesis by simp
qed

lemma converter_no_data:
  "converter f \<lparr>categories = None, valueColumns = None, metadataColumns = m\<rparr>
     = \<lparr>count = None, labelsArray = None, identities = None, objects = None, vmValues = [],
        paths = None\<rparr>"
  by (simp add: converter_def scenario_defs normalizeValues_def Math_max_def)

lemma converterCall_no_data:
  assumes "categorical arg = Some cat" "argCategories cat = None" "argValueColumns cat = None"
  shows "converterCall f arg
           = Inr \<lparr>count = None, labelsArray = None, identities = None, objects = None,
                  vmValues = [], paths = None\<rparr>"
  using assms by (simp add: converterCall_def converter_no_data)

text \<open>
  C8, as the code has it. With labels and totals of value series, the count is the larger of
  the two lengths; with only one of them, its length. The labels are there exactly when
  there is a category column, the totals exactly when the metadata columns are there and a
  series of the Values role was read. With neither, the converter does not fail: the count stays undefined, the converter logs a
  message and returns a view model with no values, and no waffle is created from it. So a
  data view whose member \<^verbatim>\<open>categorical\<close> has no categories and no values gives that view
  model, without an error. A data view without the member \<^verbatim>\<open>categorical\<close> makes the
  converter throw a \<^verbatim>\<open>TypeError\<close>.
\<close>

theorem converter_count:
  "count (converter f dv) =
     (case (labelsArray (converter f dv), seriesTotals dv) of
        (Some ls, Some ts) \<Rightarrow> Some (max (length ls) (length ts))
      | (Some ls, None) \<Rightarrow> Some (length ls)
      | (None, Some ts) \<Rightarrow> Some (length ts)
      | (None, None) \<Rightarrow> None)
   \<and> (labelsArray (converter f dv) = None
        \<longleftrightarrow> categories dv = None \<or> categories dv = Some [])
   \<and> (seriesTotals dv = None
        \<longleftrightarrow> \<not> (\<exists>vc. valueColumns dv = Some vc \<and> metadataColumns dv
                    \<and> (\<exists>col \<in> set (columnList vc). hasRole col ''Values'')))
   \<and> (labelsArray (converter f dv) = None \<and> seriesTotals dv = None \<longrightarrow>
        count (converter f dv) = None \<and> vmValues (converter f dv) = []
        \<and> initWaffles (count (converter f dv)) = 0)
   \<and> (\<forall>cat. categorical arg = Some cat \<and> argCategories cat = None
          \<and> argValueColumns cat = None \<longrightarrow>
        converterCall f arg
          = Inr \<lparr>count = None, labelsArray = None, identities = None, objects = None,
                 vmValues = [], paths = None\<rparr>)
   \<and> (categorical arg = None \<longrightarrow> converterCall f arg = Inl TypeError)"
proof (intro conjI)
  show "count (converter f dv) =
     (case (labelsArray (converter f dv), seriesTotals dv) of
        (Some ls, Some ts) \<Rightarrow> Some (max (length ls) (length ts))
      | (Some ls, None) \<Rightarrow> Some (length ls)
      | (None, Some ts) \<Rightarrow> Some (length ts)
      | (None, None) \<Rightarrow> None)"
    by (simp add: itemCount_def countOf_def)
  show "labelsArray (converter f dv) = None \<longleftrightarrow> categories dv = None \<or> categories dv = Some []"
    by (simp add: categoryLabels_None_iff)
  show "seriesTotals dv = None
        \<longleftrightarrow> \<not> (\<exists>vc. valueColumns dv = Some vc \<and> metadataColumns dv
                    \<and> (\<exists>col \<in> set (columnList vc). hasRole col ''Values''))"
    by (rule seriesTotals_None_iff)
  show "labelsArray (converter f dv) = None \<and> seriesTotals dv = None \<longrightarrow>
        count (converter f dv) = None \<and> vmValues (converter f dv) = []
        \<and> initWaffles (count (converter f dv)) = 0"
    by (simp add: no_data_values itemCount_def countOf_def initWaffles_def)
  show "\<forall>cat. categorical arg = Some cat \<and> argCategories cat = None
          \<and> argValueColumns cat = None \<longrightarrow>
        converterCall f arg
          = Inr \<lparr>count = None, labelsArray = None, identities = None, objects = None,
                 vmValues = [], paths = None\<rparr>"
    using converterCall_no_data by blast
  show "categorical arg = None \<longrightarrow> converterCall f arg = Inl TypeError"
    by (simp add: converterCall_def)
qed

theorem converter_count_witness:
  "labelsArray (converter id
      (\<lparr>categories = None, valueColumns = None, metadataColumns = True\<rparr> :: (nat, unit) DataView)) = None
   \<and> seriesTotals (\<lparr>categories = None, valueColumns = None, metadataColumns = True\<rparr> :: (nat, unit) DataView) = None
   \<and> count (converter id
      (\<lparr>categories = None, valueColumns = None, metadataColumns = True\<rparr> :: (nat, unit) DataView)) = None
   \<and> vmValues (converter id
      (\<lparr>categories = None, valueColumns = None, metadataColumns = True\<rparr> :: (nat, unit) DataView)) = []
   \<and> initWaffles (count (converter id
      (\<lparr>categories = None, valueColumns = None, metadataColumns = True\<rparr> :: (nat, unit) DataView))) = 0
   \<and> count (converter id (categoryView [''A'', ''B'', ''C''] (Some [numberColumn ''Values'' [1, 2]])))
       = Some 3
   \<and> count (converter id (categoryView [''A'', ''B'', ''C''] None)) = Some 3
   \<and> categorical (\<lparr>categorical = None, argMetadataColumns = True\<rparr> :: (nat, unit) DataViewArg) = None
   \<and> converterCall id (\<lparr>categorical = None, argMetadataColumns = True\<rparr> :: (nat, unit) DataViewArg)
       = Inl TypeError"
proof -
  let ?none = "\<lparr>categories = None, valueColumns = None, metadataColumns = True\<rparr> :: (nat, unit) DataView"
  let ?both = "categoryView [''A'', ''B'', ''C''] (Some [numberColumn ''Values'' [1, 2]])"
  let ?cats = "categoryView [''A'', ''B'', ''C''] None"
  let ?arg = "\<lparr>categorical = None, argMetadataColumns = True\<rparr> :: (nat, unit) DataViewArg"
  have 1: "labelsArray (converter id ?none) = None" by (simp add: scenario_defs)
  have 2: "seriesTotals ?none = None" by (simp add: scenario_defs)
  have 3: "labelsArray (converter id ?both) = Some [''A'', ''B'', ''C'']"
    by (simp add: scenario_defs)
  have 4: "seriesTotals ?both = Some [Val (Finite 1), Val (Finite 2)]"
    by (simp add: scenario_defs js_add_finite)
  have 5: "labelsArray (converter id ?cats) = Some [''A'', ''B'', ''C'']"
    by (simp add: scenario_defs)
  have 6: "seriesTotals ?cats = None" by (simp add: scenario_defs)
  have 7: "categorical ?arg = None" by simp
  have none: "count (converter id ?none) = None \<and> vmValues (converter id ?none) = []
                \<and> initWaffles (count (converter id ?none)) = 0"
    using converter_count [of id ?none ?arg, THEN conjunct2, THEN conjunct2, THEN conjunct2,
        THEN conjunct1] 1 2
    by blast
  have both: "count (converter id ?both) = Some 3"
    using converter_count [of id ?both ?arg, THEN conjunct1] unfolding 3 4 by simp
  have cats: "count (converter id ?cats) = Some 3"
    using converter_count [of id ?cats ?arg, THEN conjunct1] unfolding 5 6 by simp
  have err: "converterCall id ?arg = Inl TypeError"
    using converter_count [of id ?none ?arg] 7 by blast
  show ?thesis using 1 2 none both cats 7 err by blast
qed

text \<open>
  C8, as it is written, fails where it has the aggregation fail: for a data view whose
  member \<^verbatim>\<open>categorical\<close> has neither categories nor values the converter raises no error;
  it returns a view model, with the count undefined and no values.
\<close>

theorem converter_no_data_returns:
  "converterCall id
     (\<lparr>categorical = Some \<lparr>argCategories = None, argValueColumns = None\<rparr>,
       argMetadataColumns = True\<rparr> :: (nat, unit) DataViewArg)
     = Inr \<lparr>count = None, labelsArray = None, identities = None, objects = None, vmValues = [],
            paths = None\<rparr>
   \<and> initWaffles None = 0"
  by (simp add: converterCall_def converter_no_data initWaffles_def)

lemma length_js_set: "length (js_set xs i v) = max (length xs) (Suc i)"
  by (simp add: js_set_def)

lemma sumValuesStep_lengths:
  "length (fst tp) = length (snd tp)
     \<Longrightarrow> length (fst (sumValuesStep lv cp i tp)) = length (snd (sumValuesStep lv cp i tp))"
  by (simp add: sumValuesStep_def length_js_set)

lemma fold_sumValuesStep_lengths:
  "length (fst tp) = length (snd tp)
     \<Longrightarrow> length (fst (fold (sumValuesStep lv cp) is tp))
           = length (snd (fold (sumValuesStep lv cp) is tp))"
  by (induction "is" arbitrary: tp) (simp_all add: sumValuesStep_lengths)

lemma sumValues_lengths:
  "length totals = length ps
     \<Longrightarrow> length (fst (sumValues totals lv ps cp)) = length (snd (sumValues totals lv ps cp))"
  unfolding sumValues_def by (rule fold_sumValuesStep_lengths) simp

lemma columnStep_aligned: "aligned st \<Longrightarrow> aligned (columnStep pg col st)"
  by (auto simp: aligned_def columnStep_def Let_def sumValues_lengths split: option.splits)

lemma fold_columnStep_aligned: "aligned st \<Longrightarrow> aligned (fold (columnStep pg) cols st)"
  by (induction cols arbitrary: st) (simp_all add: columnStep_aligned)

lemma initial_aligned: "aligned initialValuesState"
  by (simp add: aligned_def initialValuesState_def)

lemma readValues_aligned: "aligned (readValues dv)"
  by (simp add: readValues_def Let_def fold_columnStep_aligned initial_aligned
        split: option.split)

lemma readValues_lengths:
  "totalsPaths (readValues dv) = Some (ts, ps) \<Longrightarrow> length ts = length ps"
  using readValues_aligned [of dv] by (simp add: aligned_def)

lemma length_vmValues:
  "length (vmValues (converter f dv)) =
     (case seriesTotals dv of
        Some ts \<Rightarrow> length ts
      | None \<Rightarrow> (case itemCount f dv of Some n \<Rightarrow> n | None \<Rightarrow> 0))"
  by (simp add: vmValues_converter summedTotals_def totalsOrZeros_def split: option.splits)

lemma converter_example_no_series:
  "count (converter id (categoryView [''A'', ''B''] None)) = Some 2
   \<and> labelsArray (converter id (categoryView [''A'', ''B''] None)) = Some [''A'', ''B'']
   \<and> vmValues (converter id (categoryView [''A'', ''B''] None)) = [Val (Finite 0), Val (Finite 0)]
   \<and> paths (converter id (categoryView [''A'', ''B''] None)) = None"
proof -
  have "replicate 2 (Val (Finite 0)) = [Val (Finite 0), Val (Finite 0)]"
    by (simp add: numeral_2_eq_2)
  then show ?thesis
    by (simp add: vmValues_converter scenario_defs normalizeValues_def Math_max_def js_max_def)
qed

lemma identities_length:
  "identities (converter f dv) = Some ids \<Longrightarrow> category0 dv = Some c \<Longrightarrow> length ids = length (identity c)"
  by auto

lemma labels_length:
  "labelsArray (converter f dv) = Some ls \<Longrightarrow> category0 dv = Some c \<Longrightarrow> length ls = length (catValues c)"
  by (auto simp: categoryLabels_def)

lemma count_bounds:
  assumes "count (converter f dv) = Some n"
  shows "length (vmValues (converter f dv)) \<le> n"
    and "labelsArray (converter f dv) = Some ls \<Longrightarrow> length ls \<le> n"
    and "length (vmValues (converter f dv)) = n
         \<or> (\<exists>ls. labelsArray (converter f dv) = Some ls \<and> length ls = n)"
  using assms
  by (auto simp: length_vmValues itemCount_def countOf_def split: option.splits)

lemma paths_length:
  assumes "paths (converter f dv) = Some ps"
  shows "length ps = length (vmValues (converter f dv))"
proof -
  obtain ts where tp: "totalsPaths (readValues dv) = Some (ts, ps)"
    using assms by auto
  then have "length ts = length ps" by (rule readValues_lengths)
  then show ?thesis using tp by (simp add: length_vmValues seriesTotals_def)
qed

text \<open>
  C5, as the code has it. For an input with a defined count: the values are always there and
  no longer than the count; the labels and the identities are there exactly when there is a
  category column, the paths exactly when a series of the Values role was read; the labels
  are no longer than the count, and neither are the identities of a category column whose
  identities and values are equally long; the paths are as long as the values; the values or
  the labels are exactly as long as the count. When the labels and the paths are there and
  equally long, the labels, the paths and the values have exactly the length of the count,
  and so have the identities of a category column whose identities and values are equally
  long.
\<close>

theorem converter_array_lengths:
  assumes "count (converter f dv) = Some n"
  shows "length (vmValues (converter f dv)) \<le> n
       \<and> (\<forall>ls. labelsArray (converter f dv) = Some ls \<longrightarrow> length ls \<le> n)
       \<and> (\<forall>ps. paths (converter f dv) = Some ps \<longrightarrow>
              length ps = length (vmValues (converter f dv)))
       \<and> (\<forall>ids c. identities (converter f dv) = Some ids \<and> category0 dv = Some c
              \<and> length (identity c) = length (catValues c) \<longrightarrow> length ids \<le> n)
       \<and> (length (vmValues (converter f dv)) = n
            \<or> (\<exists>ls. labelsArray (converter f dv) = Some ls \<and> length ls = n))
       \<and> (labelsArray (converter f dv) = None
            \<longleftrightarrow> categories dv = None \<or> categories dv = Some [])
       \<and> (identities (converter f dv) = None \<longleftrightarrow> labelsArray (converter f dv) = None)
       \<and> (paths (converter f dv) = None \<longleftrightarrow> seriesTotals dv = None)
       \<and> (\<forall>ls ps. labelsArray (converter f dv) = Some ls \<and> paths (converter f dv) = Some ps
              \<and> length ls = length ps \<longrightarrow>
              length ls = n \<and> length ps = n \<and> length (vmValues (converter f dv)) = n
              \<and> (\<forall>ids c. identities (converter f dv) = Some ids \<and> category0 dv = Some c
                    \<and> length (identity c) = length (catValues c) \<longrightarrow> length ids = n))"
proof -
  have values_le: "length (vmValues (converter f dv)) \<le> n"
    using assms by (rule count_bounds(1))
  have labels_le: "\<forall>ls. labelsArray (converter f dv) = Some ls \<longrightarrow> length ls \<le> n"
    using assms count_bounds(2) by blast
  have paths_eq: "\<forall>ps. paths (converter f dv) = Some ps \<longrightarrow>
             length ps = length (vmValues (converter f dv))"
    using paths_length by blast
  have ids_labels: "length ids = length ls"
    if "identities (converter f dv) = Some ids" "category0 dv = Some c"
      "length (identity c) = length (catValues c)" "labelsArray (converter f dv) = Some ls"
    for ids c ls
  proof -
    from that(4,2) have "length ls = length (catValues c)" by (rule labels_length)
    moreover from that(1,2) have "length ids = length (identity c)" by (rule identities_length)
    ultimately show ?thesis using that(3) by simp
  qed
  have ids_le: "\<forall>ids c. identities (converter f dv) = Some ids \<and> category0 dv = Some c
             \<and> length (identity c) = length (catValues c) \<longrightarrow> length ids \<le> n"
  proof (intro allI impI)
    fix ids c
    assume hyp: "identities (converter f dv) = Some ids \<and> category0 dv = Some c
                 \<and> length (identity c) = length (catValues c)"
    from hyp have cat: "category0 dv = Some c" by blast
    obtain ls where ls: "labelsArray (converter f dv) = Some ls"
      using cat by (auto simp: categoryLabels_def)
    have "length ids = length ls" using hyp ls ids_labels by blast
    moreover have "length ls \<le> n" using assms ls by (rule count_bounds(2))
    ultimately show "length ids \<le> n" by simp
  qed
  have one_exact: "length (vmValues (converter f dv)) = n
           \<or> (\<exists>ls. labelsArray (converter f dv) = Some ls \<and> length ls = n)"
    using assms by (rule count_bounds(3))
  have labels_none: "labelsArray (converter f dv) = None
             \<longleftrightarrow> categories dv = None \<or> categories dv = Some []"
    by (simp add: categoryLabels_None_iff)
  have ids_none: "identities (converter f dv) = None \<longleftrightarrow> labelsArray (converter f dv) = None"
    by (simp add: categoryLabels_def)
  have paths_none: "paths (converter f dv) = None \<longleftrightarrow> seriesTotals dv = None"
    by (simp add: seriesTotals_def)
  have all_exact: "\<forall>ls ps. labelsArray (converter f dv) = Some ls \<and> paths (converter f dv) = Some ps
             \<and> length ls = length ps \<longrightarrow>
             length ls = n \<and> length ps = n \<and> length (vmValues (converter f dv)) = n
             \<and> (\<forall>ids c. identities (converter f dv) = Some ids \<and> category0 dv = Some c
                   \<and> length (identity c) = length (catValues c) \<longrightarrow> length ids = n)"
  proof (intro allI impI)
    fix ls ps
    assume hyp: "labelsArray (converter f dv) = Some ls \<and> paths (converter f dv) = Some ps
             \<and> length ls = length ps"
    then have ls: "labelsArray (converter f dv) = Some ls" by blast
    have three: "length ls = n \<and> length ps = n \<and> length (vmValues (converter f dv)) = n"
      using hyp paths_eq one_exact by auto
    have "\<forall>ids c. identities (converter f dv) = Some ids \<and> category0 dv = Some c
                   \<and> length (identity c) = length (catValues c) \<longrightarrow> length ids = n"
      using ids_labels [OF _ _ _ ls] three by auto
    with three show "length ls = n \<and> length ps = n \<and> length (vmValues (converter f dv)) = n
             \<and> (\<forall>ids c. identities (converter f dv) = Some ids \<and> category0 dv = Some c
                   \<and> length (identity c) = length (catValues c) \<longrightarrow> length ids = n)"
      by blast
  qed
  show ?thesis
    by (rule conjI, rule values_le, rule conjI, rule labels_le, rule conjI, rule paths_eq, rule conjI, rule ids_le,
        rule conjI, rule one_exact, rule conjI, rule labels_none, rule conjI, rule ids_none, rule conjI, rule paths_none, rule all_exact)
qed

theorem converter_array_lengths_witness:
  "count (converter id (categoryView [''A'', ''B'', ''C''] (Some [numberColumn ''Values'' [100, 500, 900]])))
     = Some 3
   \<and> labelsArray (converter id
        (categoryView [''A'', ''B'', ''C''] (Some [numberColumn ''Values'' [100, 500, 900]])))
       = Some [''A'', ''B'', ''C'']
   \<and> paths (converter id
        (categoryView [''A'', ''B'', ''C''] (Some [numberColumn ''Values'' [100, 500, 900]])))
       = Some [Undefined, Undefined, Undefined]
   \<and> length [''A'', ''B'', ''C''] = length [Undefined :: string js, Undefined, Undefined]
   \<and> identities (converter id
        (categoryView [''A'', ''B'', ''C''] (Some [numberColumn ''Values'' [100, 500, 900]])))
       = Some [0, 1, 2]
   \<and> category0 (categoryView [''A'', ''B'', ''C''] (Some [numberColumn ''Values'' [100, 500, 900]]))
       = Some \<lparr>catValues = [''A'', ''B'', ''C''], identity = [0, 1, 2], catObjects = None,
                dateTime = False\<rparr>
   \<and> length (vmValues (converter id
        (categoryView [''A'', ''B'', ''C''] (Some [numberColumn ''Values'' [100, 500, 900]])))) = 3
   \<and> length [0, 1, 2 :: nat] = 3"
proof -
  let ?dv = "categoryView [''A'', ''B'', ''C''] (Some [numberColumn ''Values'' [100, 500, 900]])"
  let ?c = "\<lparr>catValues = [''A'', ''B'', ''C''], identity = [0, 1, 2 :: nat],
             catObjects = (None :: unit list option), dateTime = False\<rparr>"
  have u: "[0..<3] = [0, 1, 2]" by (simp add: upt_rec)
  have 1: "count (converter id ?dv) = Some 3" by (simp add: scenario_defs js_add_finite)
  have 2: "labelsArray (converter id ?dv) = Some [''A'', ''B'', ''C'']"
    by (simp add: scenario_defs)
  have 3: "paths (converter id ?dv) = Some [Undefined, Undefined, Undefined]"
    by (simp add: scenario_defs js_add_finite)
  have 4: "identities (converter id ?dv) = Some [0, 1, 2]"
    using u by (simp add: scenario_defs)
  have 5: "category0 ?dv = Some ?c" using u by (simp add: scenario_defs)
  note all = converter_array_lengths [OF 1]
  have "length (vmValues (converter id ?dv)) = 3" using all 2 3 by auto
  moreover have "length [0, 1, 2 :: nat] = 3" using all 2 3 4 5 by auto
  ultimately show ?thesis using 1 2 3 4 5 by simp
qed

text \<open>
  C5, as it is written, fails: for the categories A and B without any series the count is 2,
  and the labels and the values have two entries, but there are no paths.
\<close>

theorem converter_array_lengths_counterexample:
  "count (converter id (categoryView [''A'', ''B''] None)) = Some 2
   \<and> labelsArray (converter id (categoryView [''A'', ''B''] None)) = Some [''A'', ''B'']
   \<and> vmValues (converter id (categoryView [''A'', ''B''] None)) = [Val (Finite 0), Val (Finite 0)]
   \<and> paths (converter id (categoryView [''A'', ''B''] None)) = None"
  by (rule converter_example_no_series)

end
